theory Spec2Isabelle
  imports
    Main
    "HOL-Library.Multiset"
    "HOL-Library.Char_ord"
    "HOL-Library.List_Lexorder"
begin

section \<open>Interactive square finder: the algorithmic core of App.jsx\<close>

text \<open>
  The component of \<^verbatim>\<open>src/src/App.jsx\<close> steps through every pair of points of a fixed
  sequence, rotates the edge vector by plus and minus ninety degrees, looks the rotated
  corners up in a set of coordinate keys, and keeps a registry of the normalised keys of
  the squares found so far.

  Conventions of the embedding.
  \<^item> A JavaScript number that holds a coordinate is an \<open>int\<close>: the data are integers and
    the spec puts them in the safe range, where addition, subtraction and negation are
    exact, and where \<open>-0\<close> prints as \<open>0\<close> like \<open>0\<close> itself.
  \<^item> The step index is a \<open>jsnum\<close>: an integer or \<open>NaN\<close>, which is what \<open>%\<close> returns for a
    zero divisor.
  \<^item> A \<open>Set<string>\<close> is a \<open>string set\<close>: the code only uses \<open>has\<close>, \<open>add\<close>, \<open>clear\<close> and
    \<open>size\<close> (\<open>card\<close>).
  \<^item> Reading a property of \<open>undefined\<close> throws a \<open>TypeError\<close>: the result type is
    \<open>error + _\<close>.
  \<^item> The closure variables \<open>points\<close>, \<open>pairs\<close> and \<open>membership\<close> of \<open>computeStep\<close> are
    explicit parameters; the component passes the memoised values derived from \<open>points\<close>.
\<close>

subsection \<open>Types (lines 4-19)\<close>

record Pt =
  pt_x :: int
  pt_y :: int
  pt_id :: string

type_synonym Pair = "nat \<times> nat"

record StepInfo =
  pair :: Pair
  ptA :: Pt
  ptB :: Pt
  dx :: int
  dy :: int
  ldx :: int
  ldy :: int
  rdx :: int
  rdy :: int
  ptC :: Pt
  ptD :: Pt
  ptC2 :: Pt
  ptD2 :: Pt
  leftOK :: bool
  rightOK :: bool
  newlyAddedSquares :: "string list"
  uniqueCount :: nat

datatype error = TypeError

datatype jsnum = Num int | NaN

subsection \<open>Sample data (lines 22-35)\<close>

definition mkPt :: "int \<Rightarrow> int \<Rightarrow> string \<Rightarrow> Pt" where
  "mkPt a b s = \<lparr>pt_x = a, pt_y = b, pt_id = s\<rparr>"

definition axisAligned :: "Pt list" where
  "axisAligned =
     [mkPt 1 1 ''P0'', mkPt 3 1 ''P1'', mkPt 3 3 ''P2'', mkPt 1 3 ''P3'',
      mkPt 6 3 ''P4'', mkPt 7 2 ''P5'', mkPt 6 1 ''P6'', mkPt 5 2 ''P7'',
      mkPt 0 0 ''P8'', mkPt 4 0 ''P9'', mkPt 8 3 ''P10'', mkPt 2 4 ''P11'']"

subsection \<open>Printing a number, keys (lines 38-43)\<close>

text \<open>
  A template literal prints an integer in decimal, with a leading minus sign when it is
  negative.
\<close>

definition digit_char :: "nat \<Rightarrow> char" where
  "digit_char d = char_of (48 + d)"

fun show_nat :: "nat \<Rightarrow> string" where
  "show_nat n = (if n < 10 then [digit_char n] else show_nat (n div 10) @ [digit_char (n mod 10)])"

declare show_nat.simps [simp del]

definition show_int :: "int \<Rightarrow> string" where
  "show_int v = (if v < 0 then CHR ''-'' # show_nat (nat (- v)) else show_nat (nat v))"

definition keyOf :: "Pt \<Rightarrow> string" where
  "keyOf p = show_int (pt_x p) @ '','' @ show_int (pt_y p)"

text \<open>\<open>Array.prototype.join\<close>: the elements with the separator between them.\<close>

fun join :: "string \<Rightarrow> string list \<Rightarrow> string" where
  "join sep [] = []"
| "join sep [s] = s"
| "join sep (s # t # ts) = s @ sep @ join sep (t # ts)"

text \<open>
  \<open>Array.prototype.sort\<close> without a comparator orders strings by their code units,
  a proper prefix first: the lexicographic order on \<open>char list\<close>.
\<close>

definition normalizeSquareKey :: "Pt list \<Rightarrow> string" where
  "normalizeSquareKey pts = join ''|'' (sort (map keyOf pts))"

subsection \<open>Rotations (lines 46-47)\<close>

definition rotLeft :: "int \<Rightarrow> int \<Rightarrow> int \<times> int" where
  "rotLeft ex ey = (- ey, ex)"

definition rotRight :: "int \<Rightarrow> int \<Rightarrow> int \<times> int" where
  "rotRight ex ey = (ey, - ex)"

subsection \<open>The memoised pair list and membership set (lines 59-71)\<close>

definition pairs :: "Pt list \<Rightarrow> Pair list" where
  "pairs points =
     concat (map (\<lambda>i. map (\<lambda>j. (i, j)) [i + 1 ..< length points]) [0 ..< length points])"

definition membership :: "Pt list \<Rightarrow> string set" where
  "membership points = set (map keyOf points)"

subsection \<open>Array reads\<close>

text \<open>\<open>xs[k]\<close> is \<open>undefined\<close> outside \<open>0 \<le> k < xs.length\<close>.\<close>

definition at_index :: "'a list \<Rightarrow> int \<Rightarrow> 'a option" where
  "at_index xs k = (if 0 \<le> k \<and> k < int (length xs) then Some (xs ! nat k) else None)"

subsection \<open>computeStep and computeStepOnce (lines 74-132)\<close>

text \<open>
  \<open>computeStep\<close> returns the step's \<open>StepInfo\<close> together with the set that \<open>carrySquares\<close>
  holds when it returns (the caller's set is mutated in place). \<open>rebuildFrom\<close> is the
  \<open>for\<close> loop of lines 109-112 from counter \<open>t\<close> on.
\<close>

function computeStep ::
    "Pt list \<Rightarrow> Pair list \<Rightarrow> string set \<Rightarrow> int \<Rightarrow> string set \<Rightarrow> int \<Rightarrow> error + (StepInfo \<times> string set)"
  and computeStepOnce ::
    "Pt list \<Rightarrow> Pair list \<Rightarrow> string set \<Rightarrow> int \<Rightarrow> error + (StepInfo \<times> string set)"
  and rebuildFrom ::
    "Pt list \<Rightarrow> Pair list \<Rightarrow> string set \<Rightarrow> int \<Rightarrow> int \<Rightarrow> string set \<Rightarrow> error + string set"
where
  "computeStep points prs mem k carrySquares alreadySeenIndex =
     (case at_index prs k of
        None \<Rightarrow> Inl TypeError
      | Some (i, j) \<Rightarrow>
          (case (at_index points (int i), at_index points (int j)) of
             (Some a, Some b) \<Rightarrow>
               (let ex = pt_x b - pt_x a;
                    ey = pt_y b - pt_y a;
                    L = rotLeft ex ey;
                    R = rotRight ex ey;
                    c = \<lparr>pt_x = pt_x a + fst L, pt_y = pt_y a + snd L, pt_id = ''C''\<rparr>;
                    d = \<lparr>pt_x = pt_x b + fst L, pt_y = pt_y b + snd L, pt_id = ''D''\<rparr>;
                    c2 = \<lparr>pt_x = pt_x a + fst R, pt_y = pt_y a + snd R, pt_id = ''C'' @ [CHR 0x27]\<rparr>;
                    d2 = \<lparr>pt_x = pt_x b + fst R, pt_y = pt_y b + snd R, pt_id = ''D'' @ [CHR 0x27]\<rparr>;
                    lOK = (keyOf c \<in> mem \<and> keyOf d \<in> mem);
                    rOK = (keyOf c2 \<in> mem \<and> keyOf d2 \<in> mem);
                    k1 = normalizeSquareKey [a, b, c, d];
                    (carry1, newly1) =
                      (if lOK \<and> k1 \<notin> carrySquares then (insert k1 carrySquares, [k1])
                       else (carrySquares, []));
                    k2 = normalizeSquareKey [a, b, c2, d2];
                    (carry2, newly) =
                      (if rOK \<and> k2 \<notin> carry1 then (insert k2 carry1, newly1 @ [k2])
                       else (carry1, newly1))
                in case (if k \<le> alreadySeenIndex then rebuildFrom points prs mem 0 k {}
                         else Inr carry2) of
                     Inl e \<Rightarrow> Inl e
                   | Inr carry3 \<Rightarrow>
                       Inr (\<lparr>pair = (i, j), ptA = a, ptB = b, dx = ex, dy = ey,
                             ldx = fst L, ldy = snd L, rdx = fst R, rdy = snd R,
                             ptC = c, ptD = d, ptC2 = c2, ptD2 = d2,
                             leftOK = lOK, rightOK = rOK,
                             newlyAddedSquares = newly,
                             uniqueCount = card carry3\<rparr>, carry3))
           | _ \<Rightarrow> Inl TypeError))"
| "computeStepOnce points prs mem k = computeStep points prs mem k {} (- 1)"
| "rebuildFrom points prs mem t k carrySquares =
     (if t \<le> k then
        (case computeStepOnce points prs mem t of
           Inl e \<Rightarrow> Inl e
         | Inr (tmp, tmpSet) \<Rightarrow>
             rebuildFrom points prs mem (t + 1) k
               (fold insert (newlyAddedSquares tmp) carrySquares))
      else Inr carrySquares)"
  by pat_completeness auto

termination
proof (relation "measure (\<lambda>v. case v of
          Inl (points, prs, mem, k, carry, seen) \<Rightarrow>
            (if 0 \<le> k \<and> k \<le> seen then 2 * nat (k + 1) + 2 else 0)
        | Inr (Inl (points, prs, mem, k)) \<Rightarrow> 1
        | Inr (Inr (points, prs, mem, t, k, carry)) \<Rightarrow> 2 * nat (k + 1 - t) + 1)")
  show "wf (measure (\<lambda>v. case v of
          Inl (points, prs, mem, k, carry, seen) \<Rightarrow>
            (if 0 \<le> k \<and> k \<le> seen then 2 * nat (k + 1) + 2 else 0)
        | Inr (Inl (points, prs, mem, k)) \<Rightarrow> 1
        | Inr (Inr (points, prs, mem, t, k, carry)) \<Rightarrow> 2 * nat (k + 1 - t) + 1))"
    by simp
qed (auto simp: at_index_def split: if_splits)

declare computeStep.simps [simp del] computeStepOnce.simps [simp del] rebuildFrom.simps [simp del]


subsection \<open>computeStep with its nesting depth counted\<close>

text \<open>
  The same three functions with a bound on the depth of nested \<open>computeStep\<close> calls:
  \<open>computeStepDepth n\<close> may nest \<open>n\<close> activations of \<open>computeStep\<close> and is \<open>None\<close> when
  an activation beyond that is needed. \<open>rebuildWith once\<close> is the loop of lines 109-112
  with the call of \<open>computeStepOnce\<close> abstracted as \<open>once\<close>.
\<close>

function rebuildWith ::
    "(int \<Rightarrow> (error + (StepInfo \<times> string set)) option) \<Rightarrow> int \<Rightarrow> int \<Rightarrow> string set
      \<Rightarrow> (error + string set) option" where
  "rebuildWith once t k carrySquares =
     (if t \<le> k then
        (case once t of
           None \<Rightarrow> None
         | Some (Inl e) \<Rightarrow> Some (Inl e)
         | Some (Inr (tmp, tmpSet)) \<Rightarrow>
             rebuildWith once (t + 1) k (fold insert (newlyAddedSquares tmp) carrySquares))
      else Some (Inr carrySquares))"
  by pat_completeness auto
termination
  by (relation "measure (\<lambda>(once, t, k, carrySquares). nat (k + 1 - t))") auto

declare rebuildWith.simps [simp del]

primrec computeStepDepth ::
    "nat \<Rightarrow> Pt list \<Rightarrow> Pair list \<Rightarrow> string set \<Rightarrow> int \<Rightarrow> string set \<Rightarrow> int
      \<Rightarrow> (error + (StepInfo \<times> string set)) option" where
  "computeStepDepth 0 points prs mem k carrySquares alreadySeenIndex = None"
| "computeStepDepth (Suc n) points prs mem k carrySquares alreadySeenIndex =
     (case at_index prs k of
        None \<Rightarrow> Some (Inl TypeError)
      | Some (i, j) \<Rightarrow>
          (case (at_index points (int i), at_index points (int j)) of
             (Some a, Some b) \<Rightarrow>
               (let ex = pt_x b - pt_x a;
                    ey = pt_y b - pt_y a;
                    L = rotLeft ex ey;
                    R = rotRight ex ey;
                    c = \<lparr>pt_x = pt_x a + fst L, pt_y = pt_y a + snd L, pt_id = ''C''\<rparr>;
                    d = \<lparr>pt_x = pt_x b + fst L, pt_y = pt_y b + snd L, pt_id = ''D''\<rparr>;
                    c2 = \<lparr>pt_x = pt_x a + fst R, pt_y = pt_y a + snd R, pt_id = ''C'' @ [CHR 0x27]\<rparr>;
                    d2 = \<lparr>pt_x = pt_x b + fst R, pt_y = pt_y b + snd R, pt_id = ''D'' @ [CHR 0x27]\<rparr>;
                    lOK = (keyOf c \<in> mem \<and> keyOf d \<in> mem);
                    rOK = (keyOf c2 \<in> mem \<and> keyOf d2 \<in> mem);
                    k1 = normalizeSquareKey [a, b, c, d];
                    (carry1, newly1) =
                      (if lOK \<and> k1 \<notin> carrySquares then (insert k1 carrySquares, [k1])
                       else (carrySquares, []));
                    k2 = normalizeSquareKey [a, b, c2, d2];
                    (carry2, newly) =
                      (if rOK \<and> k2 \<notin> carry1 then (insert k2 carry1, newly1 @ [k2])
                       else (carry1, newly1))
                in case (if k \<le> alreadySeenIndex
                         then rebuildWith (\<lambda>t. computeStepDepth n points prs mem t {} (- 1)) 0 k {}
                         else Some (Inr carry2)) of
                     None \<Rightarrow> None
                   | Some (Inl e) \<Rightarrow> Some (Inl e)
                   | Some (Inr carry3) \<Rightarrow>
                       Some (Inr (\<lparr>pair = (i, j), ptA = a, ptB = b, dx = ex, dy = ey,
                             ldx = fst L, ldy = snd L, rdx = fst R, rdy = snd R,
                             ptC = c, ptD = d, ptC2 = c2, ptD2 = d2,
                             leftOK = lOK, rightOK = rOK,
                             newlyAddedSquares = newly,
                             uniqueCount = card carry3\<rparr>, carry3)))
           | _ \<Rightarrow> Some (Inl TypeError)))"

subsection \<open>The component state and its handlers (lines 51-56, 135-167)\<close>

text \<open>
  \<open>points\<close>, \<open>playing\<close>, \<open>speed\<close> and \<open>step\<close> are the \<open>useState\<close> cells,
  \<open>uniqueSquares\<close> and \<open>seenUpTo\<close> the two \<open>useRef\<close> cells.
\<close>

record state =
  points :: "Pt list"
  playing :: bool
  speed :: int
  step :: jsnum
  uniqueSquares :: "string set"
  seenUpTo :: int

definition initial :: state where
  "initial = \<lparr>points = axisAligned, playing = False, speed = 900, step = Num 0,
              uniqueSquares = {}, seenUpTo = - 1\<rparr>"

text \<open>
  Number arithmetic on the step index. \<open>%\<close> is the remainder of the truncating division
  (the sign of the dividend) and \<open>NaN\<close> when the divisor is zero; \<open>NaN\<close> is absorbing.
\<close>

definition js_add :: "jsnum \<Rightarrow> int \<Rightarrow> jsnum" where
  "js_add v n = (case v of NaN \<Rightarrow> NaN | Num a \<Rightarrow> Num (a + n))"

definition js_rem :: "jsnum \<Rightarrow> int \<Rightarrow> jsnum" where
  "js_rem v n =
     (case v of NaN \<Rightarrow> NaN
      | Num a \<Rightarrow> if n = 0 then NaN else Num (sgn a * (\<bar>a\<bar> mod \<bar>n\<bar>)))"

text \<open>
  \<open>computeStep\<close> called with the step cell and the memoised values of the current
  points. \<open>pairs[NaN]\<close> is \<open>undefined\<close>, so line 75 throws for \<open>NaN\<close> as it does for
  any index out of range.
\<close>

definition computeStepAt ::
    "Pt list \<Rightarrow> jsnum \<Rightarrow> string set \<Rightarrow> int \<Rightarrow> error + (StepInfo \<times> string set)" where
  "computeStepAt pts v carrySquares alreadySeenIndex =
     (case v of
        NaN \<Rightarrow> Inl TypeError
      | Num k \<Rightarrow> computeStep pts (pairs pts) (membership pts) k carrySquares alreadySeenIndex)"

text \<open>
  Lines 135-140: the callback of the memo. It works on a clone of the registry and keeps
  the result only. The memo runs it on the first render and whenever \<open>step\<close> or \<open>points\<close>
  changed since the last render; \<open>info st\<close> is the value it computes when it runs in the
  state \<open>st\<close>. When neither changed (a reset at step \<open>0\<close>), the memo does not run and
  the display keeps its previous value.
\<close>

definition info :: "state \<Rightarrow> error + StepInfo" where
  "info st =
     (case computeStepAt (points st) (step st) (uniqueSquares st) (seenUpTo st) of
        Inl e \<Rightarrow> Inl e
      | Inr (result, setClone) \<Rightarrow> Inr result)"

text \<open>
  Lines 151-156. When \<open>computeStep\<close> throws, the handler is left before either cell is
  written. \<open>Math.max\<close> is reached with a numeric step only.
\<close>

definition nextStep :: "state \<Rightarrow> error + state" where
  "nextStep st =
     (case computeStepAt (points st) (step st) (uniqueSquares st) (seenUpTo st) of
        Inl e \<Rightarrow> Inl e
      | Inr (res, carry) \<Rightarrow>
          Inr (st\<lparr>uniqueSquares := carry,
                  seenUpTo := (case step st of Num k \<Rightarrow> max (seenUpTo st) k | NaN \<Rightarrow> seenUpTo st),
                  step := js_rem (js_add (step st) 1) (int (length (pairs (points st))))\<rparr>))"

definition prevStep :: "state \<Rightarrow> state" where
  "prevStep st =
     st\<lparr>step := js_rem (js_add (js_add (step st) (- 1)) (int (length (pairs (points st)))))
                        (int (length (pairs (points st))))\<rparr>"

definition reset :: "state \<Rightarrow> state" where
  "reset st = st\<lparr>playing := False, step := Num 0, uniqueSquares := {}, seenUpTo := - 1\<rparr>"

text \<open>
  The setter that \<open>useState\<close> returns at line 51 replaces the \<open>points\<close> cell and nothing
  else; the memoised pair list and membership set follow from the new value. The
  component never calls it.
\<close>

definition setPoints :: "state \<Rightarrow> Pt list \<Rightarrow> state" where
  "setPoints st pts = st\<lparr>points := pts\<rparr>"

text \<open>\<open>n\<close> presses of the step button, stopping at the first exception.\<close>

fun nextSteps :: "nat \<Rightarrow> state \<Rightarrow> error + state" where
  "nextSteps 0 st = Inr st"
| "nextSteps (Suc n) st = (case nextStep st of Inl e \<Rightarrow> Inl e | Inr st' \<Rightarrow> nextSteps n st')"

subsection \<open>Notions used to state the properties\<close>

text \<open>The geometric identity of a point: its coordinates, without the display label.\<close>

definition coords :: "Pt \<Rightarrow> int \<times> int" where
  "coords p = (pt_x p, pt_y p)"

text \<open>The lexicographic order on index pairs.\<close>

definition lex_less :: "Pair \<Rightarrow> Pair \<Rightarrow> bool" where
  "lex_less p q = (fst p < fst q \<or> (fst p = fst q \<and> snd p < snd q))"

text \<open>
  The keys confirmed at step \<open>t\<close>: what \<open>computeStepOnce\<close> reports for it, as the loop
  of lines 109-112 reads them.
\<close>

definition confirmedKeys :: "Pt list \<Rightarrow> string set \<Rightarrow> int \<Rightarrow> string list" where
  "confirmedKeys pts mem t =
     (case computeStepOnce pts (pairs pts) mem t of
        Inl e \<Rightarrow> []
      | Inr (tmp, tmpSet) \<Rightarrow> newlyAddedSquares tmp)"

text \<open>
  The candidate corners of an edge, the two tests and the two keys, as lines 82-88, 92
  and 99 compute them.
\<close>

definition leftC :: "Pt \<Rightarrow> Pt \<Rightarrow> Pt" where
  "leftC a b = \<lparr>pt_x = pt_x a + fst (rotLeft (pt_x b - pt_x a) (pt_y b - pt_y a)),
                 pt_y = pt_y a + snd (rotLeft (pt_x b - pt_x a) (pt_y b - pt_y a)),
                 pt_id = ''C''\<rparr>"

definition leftD :: "Pt \<Rightarrow> Pt \<Rightarrow> Pt" where
  "leftD a b = \<lparr>pt_x = pt_x b + fst (rotLeft (pt_x b - pt_x a) (pt_y b - pt_y a)),
                 pt_y = pt_y b + snd (rotLeft (pt_x b - pt_x a) (pt_y b - pt_y a)),
                 pt_id = ''D''\<rparr>"

definition rightC :: "Pt \<Rightarrow> Pt \<Rightarrow> Pt" where
  "rightC a b = \<lparr>pt_x = pt_x a + fst (rotRight (pt_x b - pt_x a) (pt_y b - pt_y a)),
                  pt_y = pt_y a + snd (rotRight (pt_x b - pt_x a) (pt_y b - pt_y a)),
                  pt_id = ''C'' @ [CHR 0x27]\<rparr>"

definition rightD :: "Pt \<Rightarrow> Pt \<Rightarrow> Pt" where
  "rightD a b = \<lparr>pt_x = pt_x b + fst (rotRight (pt_x b - pt_x a) (pt_y b - pt_y a)),
                  pt_y = pt_y b + snd (rotRight (pt_x b - pt_x a) (pt_y b - pt_y a)),
                  pt_id = ''D'' @ [CHR 0x27]\<rparr>"

definition leftFound :: "Pt \<Rightarrow> Pt \<Rightarrow> string set \<Rightarrow> bool" where
  "leftFound a b mem = (keyOf (leftC a b) \<in> mem \<and> keyOf (leftD a b) \<in> mem)"

definition rightFound :: "Pt \<Rightarrow> Pt \<Rightarrow> string set \<Rightarrow> bool" where
  "rightFound a b mem = (keyOf (rightC a b) \<in> mem \<and> keyOf (rightD a b) \<in> mem)"

definition leftKey :: "Pt \<Rightarrow> Pt \<Rightarrow> string" where
  "leftKey a b = normalizeSquareKey [a, b, leftC a b, leftD a b]"

definition rightKey :: "Pt \<Rightarrow> Pt \<Rightarrow> string" where
  "rightKey a b = normalizeSquareKey [a, b, rightC a b, rightD a b]"

text \<open>The keys an edge adds to an empty registry, in the order of lines 91-104.\<close>

definition edgeKeys :: "Pt \<Rightarrow> Pt \<Rightarrow> string set \<Rightarrow> string list" where
  "edgeKeys a b mem =
     (if leftFound a b mem then [leftKey a b] else []) @
     (if rightFound a b mem \<and> \<not> (leftFound a b mem \<and> rightKey a b = leftKey a b)
      then [rightKey a b] else [])"

text \<open>The record of lines 115-125, given the list of new keys and the count.\<close>

definition infoOf :: "Pair \<Rightarrow> Pt \<Rightarrow> Pt \<Rightarrow> string set \<Rightarrow> string list \<Rightarrow> nat \<Rightarrow> StepInfo" where
  "infoOf p a b mem newly n =
     \<lparr>pair = p, ptA = a, ptB = b,
      dx = pt_x b - pt_x a, dy = pt_y b - pt_y a,
      ldx = fst (rotLeft (pt_x b - pt_x a) (pt_y b - pt_y a)),
      ldy = snd (rotLeft (pt_x b - pt_x a) (pt_y b - pt_y a)),
      rdx = fst (rotRight (pt_x b - pt_x a) (pt_y b - pt_y a)),
      rdy = snd (rotRight (pt_x b - pt_x a) (pt_y b - pt_y a)),
      ptC = leftC a b, ptD = leftD a b, ptC2 = rightC a b, ptD2 = rightD a b,
      leftOK = leftFound a b mem, rightOK = rightFound a b mem,
      newlyAddedSquares = newly, uniqueCount = n\<rparr>"

text \<open>The keys confirmed at the steps \<open>0\<close> to \<open>k\<close>.\<close>

definition confirmedUpTo :: "Pt list \<Rightarrow> string set \<Rightarrow> int \<Rightarrow> string set" where
  "confirmedUpTo pts mem k = (\<Union>t \<in> {0 .. k}. set (confirmedKeys pts mem t))"

text \<open>
  A square in the lattice: the corner set of a point \<open>p\<close>, a non-zero edge vector \<open>v\<close>
  and its rotation by ninety degrees. The squares among a point sequence are those whose
  four corners are coordinates of points of the sequence.
\<close>

definition is_square :: "(int \<times> int) set \<Rightarrow> bool" where
  "is_square S =
     (\<exists>px py vx vy. (vx, vy) \<noteq> (0, 0) \<and>
        S = {(px, py), (px + vx, py + vy), (px + vx - vy, py + vy + vx), (px - vy, py + vx)})"

definition squares_among :: "Pt list \<Rightarrow> (int \<times> int) set set" where
  "squares_among pts = {S. is_square S \<and> S \<subseteq> coords ` set pts}"

text \<open>
  The corner lists that the detector confirms over all pairs of the sequence, tested
  against the sequence's own membership set.
\<close>

definition foundCorners :: "Pt list \<Rightarrow> Pt list set" where
  "foundCorners pts =
     {l. \<exists>p \<in> set (pairs pts).
        (leftFound (pts ! fst p) (pts ! snd p) (membership pts)
          \<and> l = [pts ! fst p, pts ! snd p, leftC (pts ! fst p) (pts ! snd p),
                  leftD (pts ! fst p) (pts ! snd p)])
      \<or> (rightFound (pts ! fst p) (pts ! snd p) (membership pts)
          \<and> l = [pts ! fst p, pts ! snd p, rightC (pts ! fst p) (pts ! snd p),
                  rightD (pts ! fst p) (pts ! snd p)])}"

text \<open>
  The count of step \<open>n\<close> of a forward run: after a reset and \<open>n\<close> presses of the step
  button, the \<open>uniqueCount\<close> that \<open>computeStep\<close> returns for the current step, registry
  and high-water mark (the call of line 153 at the next press, and of line 137 when the
  memo runs).
\<close>

definition forwardCount :: "state \<Rightarrow> nat \<Rightarrow> nat option" where
  "forwardCount st n =
     (case nextSteps n (reset st) of
        Inl e \<Rightarrow> None
      | Inr st' \<Rightarrow>
          (case computeStepAt (points st') (step st') (uniqueSquares st') (seenUpTo st') of
             Inl e \<Rightarrow> None
           | Inr (res, carry) \<Rightarrow> Some (uniqueCount res)))"

text \<open>The characters \<open>0\<close> to \<open>9\<close>.\<close>

definition is_digit :: "char \<Rightarrow> bool" where
  "is_digit c = (48 \<le> (of_char c :: nat) \<and> (of_char c :: nat) < 58)"

section \<open>Properties\<close>

subsection \<open>The pair enumeration\<close>

lemma sorted_wrt_concat_map:
  assumes "sorted_wrt Q xs"
    and "\<And>x. x \<in> set xs \<Longrightarrow> sorted_wrt P (f x)"
    and "\<And>x y a b. Q x y \<Longrightarrow> a \<in> set (f x) \<Longrightarrow> b \<in> set (f y) \<Longrightarrow> P a b"
  shows "sorted_wrt P (concat (map f xs))"
  using assms
proof (induction xs)
  case Nil
  then show ?case by simp
next
  case (Cons x xs)
  then show ?case by (auto simp: sorted_wrt_append)
qed

lemma pairs_sorted: "sorted_wrt lex_less (pairs pts)"
  unfolding pairs_def
proof (rule sorted_wrt_concat_map [where Q = "(<)"])
  show "sorted_wrt (<) [0..<length pts]" by simp
next
  fix i
  show "sorted_wrt lex_less (map (\<lambda>j. (i, j)) [i + 1..<length pts])"
    by (simp add: sorted_wrt_map lex_less_def)
next
  fix x y :: nat and a b
  assume "x < y" "a \<in> set (map (\<lambda>j. (x, j)) [x + 1..<length pts])"
    "b \<in> set (map (\<lambda>j. (y, j)) [y + 1..<length pts])"
  then show "lex_less a b" by (auto simp: lex_less_def)
qed

lemma set_pairs: "set (pairs pts) = {(i, j). i < j \<and> j < length pts}"
  by (force simp: pairs_def)

lemma lex_less_irrefl: "\<not> lex_less p p"
  by (simp add: lex_less_def)

lemma pairs_distinct: "distinct (pairs pts)"
proof -
  have "sorted_wrt (\<lambda>p q. p \<noteq> q) (pairs pts)"
    by (rule sorted_wrt_mono_rel [OF _ pairs_sorted]) (auto simp: lex_less_def)
  then show ?thesis by (simp add: distinct_conv_nth sorted_wrt_iff_nth_less) (metis nat_neq_iff)
qed

lemma sum_down: "(\<Sum>i = 0..<n. n - Suc i) = n * (n - 1) div 2" for n :: nat
proof -
  have "(\<Sum>i = 0..<n. n - Suc i) = (\<Sum>i = 0..<n. i)"
    using sum.nat_diff_reindex [of "\<lambda>i. i" n] by (simp add: atLeast0LessThan)
  also have "\<dots> = n * (n - 1) div 2"
    using gauss_sum_nat [of "n - 1"] by (cases n) (simp_all add: atLeastLessThanSuc_atLeastAtMost atLeast0AtMost)
  finally show ?thesis .
qed

lemma length_pairs: "length (pairs pts) = length pts * (length pts - 1) div 2"
  by (simp add: pairs_def length_concat comp_def interv_sum_list_conv_sum_set_nat sum_down)

lemma pairs_length_only: "length pts = length pts' \<Longrightarrow> pairs pts = pairs pts'"
  by (simp add: pairs_def)

text \<open>
  Claim C7. For a point sequence of length \<open>n\<close> the pair list has exactly
  \<open>n (n - 1) / 2\<close> entries, each entry \<open>(i, j)\<close> has \<open>i < j < n\<close>, no entry occurs
  twice, the entries are in strictly increasing lexicographic order, and the list depends
  on nothing but the sequence (indeed only on its length).
\<close>

theorem pairs_enumeration:
  "length (pairs pts) = length pts * (length pts - 1) div 2
   \<and> (\<forall>p \<in> set (pairs pts). fst p < snd p \<and> snd p < length pts)
   \<and> distinct (pairs pts)
   \<and> sorted_wrt lex_less (pairs pts)
   \<and> (\<forall>pts'. length pts' = length pts \<longrightarrow> pairs pts' = pairs pts)"
proof (intro conjI allI impI ballI)
  show "length (pairs pts) = length pts * (length pts - 1) div 2"
    by (rule length_pairs)
  show "distinct (pairs pts)" by (rule pairs_distinct)
  show "sorted_wrt lex_less (pairs pts)" by (rule pairs_sorted)
  show "pairs pts' = pairs pts" if "length pts' = length pts" for pts'
    using that by (rule pairs_length_only)
  show "fst p < snd p" "snd p < length pts" if "p \<in> set (pairs pts)" for p
    using that by (auto simp: set_pairs)
qed

theorem pairs_enumeration_witness:
  "pairs [mkPt 0 0 ''a'', mkPt 5 5 ''b'', mkPt 0 1 ''c'', mkPt 2 2 ''d'']
     = [(0, 1), (0, 2), (0, 3), (1, 2), (1, 3), (2, 3)]
   \<and> length (pairs [mkPt 0 0 ''a'', mkPt 5 5 ''b'', mkPt 0 1 ''c'', mkPt 2 2 ''d'']) = 6
   \<and> (fst (1 :: nat, 3 :: nat) < snd (1 :: nat, 3 :: nat) \<and> snd (1 :: nat, 3 :: nat) < 4)
   \<and> distinct (pairs [mkPt 0 0 ''a'', mkPt 5 5 ''b'', mkPt 0 1 ''c'', mkPt 2 2 ''d''])
   \<and> sorted_wrt lex_less (pairs [mkPt 0 0 ''a'', mkPt 5 5 ''b'', mkPt 0 1 ''c'', mkPt 2 2 ''d''])
   \<and> pairs [mkPt 9 9 ''w'', mkPt 9 9 ''x'', mkPt 9 9 ''y'', mkPt 9 9 ''z'']
     = pairs [mkPt 0 0 ''a'', mkPt 5 5 ''b'', mkPt 0 1 ''c'', mkPt 2 2 ''d'']"
proof -
  let ?ps = "[mkPt 0 0 ''a'', mkPt 5 5 ''b'', mkPt 0 1 ''c'', mkPt 2 2 ''d'']"
  let ?qs = "[mkPt 9 9 ''w'', mkPt 9 9 ''x'', mkPt 9 9 ''y'', mkPt 9 9 ''z'']"
  note t = pairs_enumeration [of ?ps]
  have e: "pairs ?ps = [(0, 1), (0, 2), (0, 3), (1, 2), (1, 3), (2, 3)]"
    by code_simp
  then have m: "(1, 3) \<in> set (pairs ?ps)" by simp
  have "length (pairs ?ps) = length ?ps * (length ?ps - 1) div 2
      \<and> distinct (pairs ?ps) \<and> sorted_wrt lex_less (pairs ?ps)"
    using t by blast
  then have a: "length (pairs ?ps) = 6 \<and> distinct (pairs ?ps) \<and> sorted_wrt lex_less (pairs ?ps)"
    by simp
  have "\<forall>p \<in> set (pairs ?ps). fst p < snd p \<and> snd p < length ?ps"
    using t by blast
  with m have "fst (1 :: nat, 3 :: nat) < snd (1 :: nat, 3 :: nat)
      \<and> snd (1 :: nat, 3 :: nat) < length ?ps"
    by blast
  then have b: "fst (1 :: nat, 3 :: nat) < snd (1 :: nat, 3 :: nat) \<and> snd (1 :: nat, 3 :: nat) < 4"
    by simp
  have "length ?qs = length ?ps" by simp
  with t have c: "pairs ?qs = pairs ?ps" by blast
  from e a b c show ?thesis by blast
qed

subsection \<open>Keys\<close>

lemma digit_code_small: "d < 10 \<Longrightarrow> (48 + d) mod 256 = 48 + d" for d :: nat
  by (rule mod_less) linarith

lemma of_char_digit_char: "d < 10 \<Longrightarrow> (of_char (digit_char d) :: nat) = 48 + d"
  unfolding digit_char_def by (simp only: of_char_of digit_code_small)

lemma digit_char_inj: "a < 10 \<Longrightarrow> b < 10 \<Longrightarrow> digit_char a = digit_char b \<Longrightarrow> a = b"
proof -
  assume "a < 10" "b < 10" "digit_char a = digit_char b"
  then have "(48 + a :: nat) = 48 + b"
    by (metis of_char_digit_char)
  then show ?thesis by linarith
qed

lemma is_digit_digit_char: "d < 10 \<Longrightarrow> is_digit (digit_char d)"
  by (simp add: is_digit_def of_char_digit_char)

lemma show_nat_digits: "c \<in> set (show_nat n) \<Longrightarrow> is_digit c"
proof (induction n rule: show_nat.induct)
  case (1 n)
  show ?case
  proof (cases "n < 10")
    case True
    with "1.prems" show ?thesis
      by (simp add: show_nat.simps [of n] is_digit_digit_char)
  next
    case False
    with "1.prems" "1.IH" show ?thesis
      by (auto simp: show_nat.simps [of n] is_digit_digit_char)
  qed
qed

lemma show_nat_nonempty: "show_nat n \<noteq> []"
  by (subst show_nat.simps) simp

lemma show_nat_inj: "show_nat n = show_nat m \<Longrightarrow> n = m"
proof (induction n arbitrary: m rule: show_nat.induct)
  case (1 n)
  show ?case
  proof (cases "n < 10")
    case n: True
    show ?thesis
    proof (cases "m < 10")
      case True
      with n "1.prems" show ?thesis
        by (simp add: show_nat.simps [of n] show_nat.simps [of m] digit_char_inj)
    next
      case False
      with n "1.prems" show_nat_nonempty [of "m div 10"] show ?thesis
        by (simp add: show_nat.simps [of n] show_nat.simps [of m] Cons_eq_append_conv)
    qed
  next
    case n: False
    show ?thesis
    proof (cases "m < 10")
      case True
      with n "1.prems" show_nat_nonempty [of "n div 10"] show ?thesis
        by (simp add: show_nat.simps [of n] show_nat.simps [of m] append_eq_Cons_conv)
    next
      case False
      with n "1.prems" have "show_nat (n div 10) = show_nat (m div 10)"
        and "digit_char (n mod 10) = digit_char (m mod 10)"
        by (simp_all add: show_nat.simps [of n] show_nat.simps [of m])
      with n "1.IH" have "n div 10 = m div 10" "n mod 10 = m mod 10"
        by (auto intro: digit_char_inj)
      then show ?thesis
        by (metis div_mult_mod_eq)
    qed
  qed
qed

lemma minus_not_digit: "\<not> is_digit CHR ''-''" "\<not> is_digit CHR '',''" "\<not> is_digit CHR ''|''"
  by (simp_all add: is_digit_def)

lemma show_nat_no_minus: "show_nat n \<noteq> CHR ''-'' # s"
  using show_nat_digits [of "CHR ''-''" n] minus_not_digit(1) by auto

lemma show_int_inj: "show_int a = show_int b \<Longrightarrow> a = b"
proof -
  assume e: "show_int a = show_int b"
  consider "a < 0" "b < 0" | "a < 0" "\<not> b < 0" | "\<not> a < 0" "b < 0" | "\<not> a < 0" "\<not> b < 0"
    by blast
  then show ?thesis
  proof cases
    case 1
    with e have "nat (- a) = nat (- b)" by (simp add: show_int_def show_nat_inj)
    with 1 show ?thesis by simp
  next
    case 2
    with e have "show_nat (nat b) = CHR ''-'' # show_nat (nat (- a))" by (simp add: show_int_def)
    then show ?thesis using show_nat_no_minus by blast
  next
    case 3
    with e show ?thesis using show_nat_no_minus [of "nat a"] by (simp add: show_int_def)
  next
    case 4
    with e have "nat a = nat b" by (simp add: show_int_def show_nat_inj)
    with 4 show ?thesis by simp
  qed
qed

lemma show_int_chars: "c \<in> set (show_int a) \<Longrightarrow> is_digit c \<or> c = CHR ''-''"
  by (auto simp: show_int_def dest: show_nat_digits split: if_splits)

lemma show_int_no_comma: "CHR '','' \<notin> set (show_int a)"
  using show_int_chars [of "CHR '',''" a] minus_not_digit by auto

lemma split_at_sep:
  "c \<notin> set a \<Longrightarrow> c \<notin> set b \<Longrightarrow> a @ c # r = b @ c # r' \<Longrightarrow> a = b \<and> r = r'"
proof (induction a arbitrary: b)
  case Nil
  then show ?case by (cases b) auto
next
  case (Cons x a)
  then show ?case by (cases b) auto
qed

lemma keyOf_inj: "keyOf p = keyOf q \<longleftrightarrow> coords p = coords q"
proof
  assume "keyOf p = keyOf q"
  then have "show_int (pt_x p) @ CHR '','' # show_int (pt_y p)
      = show_int (pt_x q) @ CHR '','' # show_int (pt_y q)"
    by (simp add: keyOf_def)
  then have "show_int (pt_x p) = show_int (pt_x q) \<and> show_int (pt_y p) = show_int (pt_y q)"
    by (rule split_at_sep [rotated 2]) (rule show_int_no_comma)+
  then show "coords p = coords q"
    by (simp add: coords_def show_int_inj)
next
  assume "coords p = coords q"
  then show "keyOf p = keyOf q" by (simp add: coords_def keyOf_def)
qed

lemma keyOf_no_bar: "CHR ''|'' \<notin> set (keyOf p)"
  using show_int_chars [of "CHR ''|''"] minus_not_digit by (auto simp: keyOf_def)

lemma keyOf_nonempty: "keyOf p \<noteq> []"
  by (simp add: keyOf_def)

lemma join_inj:
  assumes "\<And>s. s \<in> set xs \<union> set ys \<Longrightarrow> s \<noteq> [] \<and> c \<notin> set s"
    and "join [c] xs = join [c] ys"
  shows "xs = ys"
  using assms
proof (induction "[c]" xs arbitrary: ys rule: join.induct)
  case 1
  then show ?case
    by (cases ys; cases "tl ys") auto
next
  case (2 s)
  show ?case
  proof (cases ys)
    case Nil
    with "2.prems" show ?thesis by auto
  next
    case (Cons u us)
    show ?thesis
    proof (cases us)
      case Nil
      with Cons "2.prems" show ?thesis by simp
    next
      case Cons2: (Cons v vs)
      with Cons "2.prems"(2) have "s = u @ c # join [c] (v # vs)" by simp
      moreover have "c \<notin> set s" using "2.prems"(1) [of s] by simp
      ultimately show ?thesis by simp
    qed
  qed
next
  case (3 s t ts)
  show ?case
  proof (cases ys)
    case Nil
    with "3.prems" show ?thesis by auto
  next
    case (Cons u us)
    show ?thesis
    proof (cases us)
      case Nil
      with Cons "3.prems"(2) have "u = s @ c # join [c] (t # ts)" by simp
      moreover have "c \<notin> set u" using "3.prems"(1) [of u] Cons by simp
      ultimately show ?thesis by simp
    next
      case (Cons v vs)
      have "c \<notin> set s" "c \<notin> set u"
        using "3.prems"(1) [of s] "3.prems"(1) [of u] \<open>ys = u # us\<close> by simp_all
      moreover have "s @ c # join [c] (t # ts) = u @ c # join [c] (v # vs)"
        using Cons \<open>ys = u # us\<close> "3.prems"(2) by simp
      ultimately have "s = u \<and> join [c] (t # ts) = join [c] (v # vs)"
        by (metis split_at_sep)
      moreover from this "3.prems" Cons \<open>ys = u # us\<close> "3.hyps" [of "v # vs"] have "t # ts = v # vs"
        by auto
      ultimately show ?thesis using Cons \<open>ys = u # us\<close> by simp
    qed
  qed
qed

lemma keyOf_mset_coords:
  "mset (map keyOf ps) = mset (map keyOf qs) \<longleftrightarrow> mset (map coords ps) = mset (map coords qs)"
proof -
  define kf where "kf = (\<lambda>v :: int \<times> int. show_int (fst v) @ '','' @ show_int (snd v))"
  have k: "keyOf = kf \<circ> coords"
    by (auto simp: kf_def keyOf_def coords_def)
  have "inj kf"
  proof (rule injI)
    fix v w assume "kf v = kf w"
    then have "keyOf \<lparr>pt_x = fst v, pt_y = snd v, pt_id = []\<rparr> = keyOf \<lparr>pt_x = fst w, pt_y = snd w, pt_id = []\<rparr>"
      by (simp add: kf_def keyOf_def)
    then show "v = w" by (simp add: keyOf_inj coords_def prod_eq_iff)
  qed
  then have "image_mset kf (mset (map coords ps)) = image_mset kf (mset (map coords qs))
      \<longleftrightarrow> mset (map coords ps) = mset (map coords qs)"
    using multiset.inj_map [of kf] by (auto dest: injD)
  moreover have "mset (map keyOf rs) = image_mset kf (mset (map coords rs))" for rs
    by (simp add: k multiset.map_comp)
  ultimately show ?thesis by (simp only:)
qed

lemma normalizeSquareKey_eq_iff:
  "normalizeSquareKey ps = normalizeSquareKey qs \<longleftrightarrow> mset (map coords ps) = mset (map coords qs)"
proof
  assume "normalizeSquareKey ps = normalizeSquareKey qs"
  then have "join ''|'' (sort (map keyOf ps)) = join ''|'' (sort (map keyOf qs))"
    by (simp add: normalizeSquareKey_def)
  then have "sort (map keyOf ps) = sort (map keyOf qs)"
    by (rule join_inj [rotated]) (auto simp: keyOf_no_bar keyOf_nonempty)
  then have "mset (sort (map keyOf ps)) = mset (sort (map keyOf qs))" by simp
  then have "mset (map keyOf ps) = mset (map keyOf qs)" by simp
  then show "mset (map coords ps) = mset (map coords qs)"
    by (simp only: keyOf_mset_coords)
next
  assume "mset (map coords ps) = mset (map coords qs)"
  then have "mset (map keyOf ps) = mset (map keyOf qs)"
    by (simp only: keyOf_mset_coords)
  then have "sort (map keyOf ps) = sort (map keyOf qs)"
    by (metis mset_sort properties_for_sort sorted_sort)
  then show "normalizeSquareKey ps = normalizeSquareKey qs"
    by (simp add: normalizeSquareKey_def)
qed

text \<open>
  Claim C5. The key does not depend on the order of the corners: two corner lists with
  the same coordinates, in any order, get the same key. And it separates corner sets:
  two corner lists whose coordinate sets differ get different keys.
\<close>

theorem normalizeSquareKey_dedup:
  "(mset (map coords ps) = mset (map coords qs)
      \<longrightarrow> normalizeSquareKey ps = normalizeSquareKey qs)
   \<and> (set (map coords ps) \<noteq> set (map coords qs)
      \<longrightarrow> normalizeSquareKey ps \<noteq> normalizeSquareKey qs)"
proof (intro conjI impI)
  assume "mset (map coords ps) = mset (map coords qs)"
  then show "normalizeSquareKey ps = normalizeSquareKey qs"
    by (simp only: normalizeSquareKey_eq_iff)
next
  assume d: "set (map coords ps) \<noteq> set (map coords qs)"
  show "normalizeSquareKey ps \<noteq> normalizeSquareKey qs"
  proof
    assume "normalizeSquareKey ps = normalizeSquareKey qs"
    then have "mset (map coords ps) = mset (map coords qs)"
      by (simp only: normalizeSquareKey_eq_iff)
    then have "set (map coords ps) = set (map coords qs)"
      by (rule mset_eq_setD)
    with d show False by contradiction
  qed
qed

theorem normalizeSquareKey_dedup_witness:
  "normalizeSquareKey [mkPt 1 1 ''P0'', mkPt 3 1 ''P1'', mkPt 1 3 ''C'', mkPt 3 3 ''D'']
     = normalizeSquareKey [mkPt 3 3 ''P2'', mkPt 1 3 ''P3'', mkPt 1 1 ''C'', mkPt 3 1 ''D'']
   \<and> normalizeSquareKey [mkPt 1 1 ''P0'', mkPt 3 1 ''P1'', mkPt 1 3 ''C'', mkPt 3 3 ''D'']
     \<noteq> normalizeSquareKey [mkPt 1 1 ''P0'', mkPt 3 1 ''P1'', mkPt 1 (- 1) ''C'', mkPt 3 (- 1) ''D'']"
proof -
  let ?ps = "[mkPt 1 1 ''P0'', mkPt 3 1 ''P1'', mkPt 1 3 ''C'', mkPt 3 3 ''D'']"
  let ?qs = "[mkPt 3 3 ''P2'', mkPt 1 3 ''P3'', mkPt 1 1 ''C'', mkPt 3 1 ''D'']"
  let ?rs = "[mkPt 1 1 ''P0'', mkPt 3 1 ''P1'', mkPt 1 (- 1) ''C'', mkPt 3 (- 1) ''D'']"
  have "mset (map coords ?ps) = mset (map coords ?qs)"
    by (simp add: coords_def mkPt_def)
  with normalizeSquareKey_dedup [of ?ps ?qs]
  have 1: "normalizeSquareKey ?ps = normalizeSquareKey ?qs" by blast
  have "(1, 3) \<in> set (map coords ?ps)" "(1, 3) \<notin> set (map coords ?rs)"
    by (simp_all add: coords_def mkPt_def)
  then have "set (map coords ?ps) \<noteq> set (map coords ?rs)" by blast
  with normalizeSquareKey_dedup [of ?ps ?rs]
  have 2: "normalizeSquareKey ?ps \<noteq> normalizeSquareKey ?rs" by blast
  from 1 2 show ?thesis by blast
qed

subsection \<open>The step function in closed form\<close>

lemma at_index_pairs:
  assumes "at_index (pairs pts) k = Some (i, j)"
  shows "i < j \<and> j < length pts \<and> 0 \<le> k \<and> k < int (length (pairs pts))
    \<and> at_index pts (int i) = Some (pts ! i) \<and> at_index pts (int j) = Some (pts ! j)"
proof -
  from assms have k: "0 \<le> k" "k < int (length (pairs pts))" and e: "pairs pts ! nat k = (i, j)"
    by (simp_all add: at_index_def split: if_splits)
  then have "(i, j) \<in> set (pairs pts)"
    by (metis nat_less_iff nth_mem)
  then have "i < j \<and> j < length pts" by (simp add: set_pairs)
  with k show ?thesis by (simp add: at_index_def)
qed

lemma at_index_valid:
  "0 \<le> k \<Longrightarrow> k < int (length xs) \<Longrightarrow> at_index xs k = Some (xs ! nat k)"
  by (simp add: at_index_def)

lemma at_index_pairs_ex:
  assumes "0 \<le> k" "k < int (length (pairs pts))"
  obtains i j where "at_index (pairs pts) k = Some (i, j)"
  using assms by (cases "pairs pts ! nat k") (simp add: at_index_def)

lemma computeStep_unfold:
  assumes "at_index (pairs pts) k = Some (i, j)"
  shows "computeStep pts (pairs pts) mem k carry seen =
     (let a = pts ! i; b = pts ! j;
          carry1 = (if leftFound a b mem \<and> leftKey a b \<notin> carry then insert (leftKey a b) carry else carry);
          newly1 = (if leftFound a b mem \<and> leftKey a b \<notin> carry then [leftKey a b] else []);
          carry2 = (if rightFound a b mem \<and> rightKey a b \<notin> carry1 then insert (rightKey a b) carry1 else carry1);
          newly = (if rightFound a b mem \<and> rightKey a b \<notin> carry1 then newly1 @ [rightKey a b] else newly1)
      in case (if k \<le> seen then rebuildFrom pts (pairs pts) mem 0 k {} else Inr carry2) of
           Inl e \<Rightarrow> Inl e
         | Inr carry3 \<Rightarrow> Inr (infoOf (i, j) a b mem newly (card carry3), carry3))"
proof -
  from at_index_pairs [OF assms]
  have a: "at_index pts (int i) = Some (pts ! i)" "at_index pts (int j) = Some (pts ! j)"
    by simp_all
  show ?thesis
    apply (subst computeStep.simps)
    apply (simp only: assms a option.case prod.case Let_def infoOf_def)
    apply (fold leftC_def leftD_def rightC_def rightD_def)
    apply (fold leftFound_def rightFound_def leftKey_def rightKey_def)
    apply (auto simp add: split_beta cong: sum.case_cong)
    done
qed

lemma computeStep_eq:
  assumes "at_index (pairs pts) k = Some (i, j)"
  shows "computeStep pts (pairs pts) mem k carry seen =
     (case (if k \<le> seen then rebuildFrom pts (pairs pts) mem 0 k {}
            else Inr (carry \<union> set (edgeKeys (pts ! i) (pts ! j) mem))) of
        Inl e \<Rightarrow> Inl e
      | Inr carry3 \<Rightarrow>
          Inr (infoOf (i, j) (pts ! i) (pts ! j) mem
                 (filter (\<lambda>s. s \<notin> carry) (edgeKeys (pts ! i) (pts ! j) mem)) (card carry3),
               carry3))"
  unfolding computeStep_unfold [OF assms] Let_def edgeKeys_def
  by (cases "leftFound (pts ! i) (pts ! j) mem"; cases "rightFound (pts ! i) (pts ! j) mem";
      cases "leftKey (pts ! i) (pts ! j) \<in> carry"; cases "rightKey (pts ! i) (pts ! j) \<in> carry";
      cases "rightKey (pts ! i) (pts ! j) = leftKey (pts ! i) (pts ! j)")
    (simp_all add: insert_absorb insert_commute cong: sum.case_cong)

lemma computeStepOnce_eq:
  assumes "at_index (pairs pts) k = Some (i, j)"
  shows "computeStepOnce pts (pairs pts) mem k =
     Inr (infoOf (i, j) (pts ! i) (pts ! j) mem (edgeKeys (pts ! i) (pts ! j) mem)
            (card (set (edgeKeys (pts ! i) (pts ! j) mem))),
          set (edgeKeys (pts ! i) (pts ! j) mem))"
proof -
  from at_index_pairs [OF assms] have "\<not> k \<le> - 1" by simp
  then show ?thesis
    unfolding computeStepOnce.simps computeStep_eq [OF assms] by simp
qed

lemma confirmedKeys_edge:
  assumes "at_index (pairs pts) k = Some (i, j)"
  shows "confirmedKeys pts mem k = edgeKeys (pts ! i) (pts ! j) mem"
  unfolding confirmedKeys_def computeStepOnce_eq [OF assms]
  by (simp add: infoOf_def)

lemma confirmedKeys_nth:
  assumes "n < length (pairs pts)"
  shows "confirmedKeys pts mem (int n)
    = edgeKeys (pts ! fst (pairs pts ! n)) (pts ! snd (pairs pts ! n)) mem"
proof -
  from assms have "at_index (pairs pts) (int n) = Some (fst (pairs pts ! n), snd (pairs pts ! n))"
    by (simp add: at_index_def)
  then show ?thesis by (rule confirmedKeys_edge)
qed

lemma rebuildFrom_eq:
  assumes "0 \<le> t" "k < int (length (pairs pts))"
  shows "rebuildFrom pts (pairs pts) mem t k acc
    = Inr (acc \<union> (\<Union>u \<in> {t .. k}. set (confirmedKeys pts mem u)))"
  using assms
proof (induction "nat (k + 1 - t)" arbitrary: t acc)
  case 0
  then have "\<not> t \<le> k" by simp
  then show ?case
    by (subst rebuildFrom.simps) simp
next
  case (Suc n)
  then have tk: "t \<le> k" by simp
  with Suc.prems obtain i j where ij: "at_index (pairs pts) t = Some (i, j)"
    by (metis at_index_pairs_ex le_less_trans order.strict_trans2 not_le)
  have n: "n = nat (k + 1 - (t + 1))" using Suc.hyps(2) by simp
  have sp: "{t .. k} = insert t {t + 1 .. k}" using tk by auto
  have "rebuildFrom pts (pairs pts) mem t k acc
      = rebuildFrom pts (pairs pts) mem (t + 1) k (fold insert (edgeKeys (pts ! i) (pts ! j) mem) acc)"
    by (subst rebuildFrom.simps) (simp add: tk computeStepOnce_eq [OF ij] infoOf_def)
  also have "\<dots> = Inr (fold insert (edgeKeys (pts ! i) (pts ! j) mem) acc
      \<union> (\<Union>u \<in> {t + 1 .. k}. set (confirmedKeys pts mem u)))"
    using Suc.hyps(1) [OF n] Suc.prems by simp
  also have "fold insert (edgeKeys (pts ! i) (pts ! j) mem) acc
      = acc \<union> set (confirmedKeys pts mem t)"
    by (simp add: confirmedKeys_edge [OF ij] union_set_fold [symmetric] Un_commute)
  finally show ?case
    by (simp add: sp Un_assoc)
qed

lemma computeStep_rewind:
  assumes "at_index (pairs pts) k = Some (i, j)" "k \<le> seen"
  shows "computeStep pts (pairs pts) mem k carry seen =
          Inr (infoOf (i, j) (pts ! i) (pts ! j) mem
                 (filter (\<lambda>s. s \<notin> carry) (confirmedKeys pts mem k))
                 (card (confirmedUpTo pts mem k)),
               confirmedUpTo pts mem k)"
proof -
  from at_index_pairs [OF assms(1)] have "k < int (length (pairs pts))" by simp
  then show ?thesis
    unfolding computeStep_eq [OF assms(1)] confirmedUpTo_def confirmedKeys_edge [OF assms(1)]
    by (simp add: assms(2) rebuildFrom_eq)
qed

lemma computeStep_forward:
  assumes "at_index (pairs pts) k = Some (i, j)" "\<not> k \<le> seen"
  shows "computeStep pts (pairs pts) mem k carry seen =
          Inr (infoOf (i, j) (pts ! i) (pts ! j) mem
                 (filter (\<lambda>s. s \<notin> carry) (confirmedKeys pts mem k))
                 (card (carry \<union> set (confirmedKeys pts mem k))),
               carry \<union> set (confirmedKeys pts mem k))"
  unfolding computeStep_eq [OF assms(1)] confirmedKeys_edge [OF assms(1)]
  by (simp add: assms(2))

lemma confirmedUpTo_step:
  "0 \<le> k \<Longrightarrow> confirmedUpTo pts mem k = confirmedUpTo pts mem (k - 1) \<union> set (confirmedKeys pts mem k)"
proof -
  assume "0 \<le> k"
  then have "{0 .. k} = insert k {0 .. k - 1}" by auto
  then show ?thesis by (simp add: confirmedUpTo_def Un_commute)
qed

lemma confirmedUpTo_neg: "k < 0 \<Longrightarrow> confirmedUpTo pts mem k = {}"
  by (simp add: confirmedUpTo_def)

lemma finite_confirmedUpTo: "finite (confirmedUpTo pts mem k)"
  by (simp add: confirmedUpTo_def)

subsection \<open>The detector\<close>

lemma keyOf_in_membership: "keyOf p \<in> membership pts \<longleftrightarrow> coords p \<in> coords ` set pts"
  by (auto simp: membership_def keyOf_inj image_iff)

text \<open>
  Claim C1. For the pair \<open>(A, B)\<close> of a step and any membership set, the step reports
  the edge vector \<open>(dx, dy) = (B.x - A.x, B.y - A.y)\<close>, the left candidates
  \<open>C = (A.x - dy, A.y + dx)\<close> and \<open>D = (B.x - dy, B.y + dx)\<close>, the right candidates
  \<open>C2 = (A.x + dy, A.y - dx)\<close> and \<open>D2 = (B.x + dy, B.y - dx)\<close>; \<open>leftOK\<close> holds exactly
  when the keys of \<open>C\<close> and \<open>D\<close> are both in the membership set, \<open>rightOK\<close> exactly when
  those of \<open>C2\<close> and \<open>D2\<close> are. This holds for every registry and high-water mark.
\<close>

theorem detector_step:
  assumes "at_index (pairs pts) k = Some (i, j)"
  shows "\<exists>res carry'.
      computeStep pts (pairs pts) mem k carry seen = Inr (res, carry')
    \<and> ptA res = pts ! i \<and> ptB res = pts ! j
    \<and> dx res = pt_x (ptB res) - pt_x (ptA res)
    \<and> dy res = pt_y (ptB res) - pt_y (ptA res)
    \<and> coords (ptC res) = (pt_x (ptA res) - dy res, pt_y (ptA res) + dx res)
    \<and> coords (ptD res) = (pt_x (ptB res) - dy res, pt_y (ptB res) + dx res)
    \<and> coords (ptC2 res) = (pt_x (ptA res) + dy res, pt_y (ptA res) - dx res)
    \<and> coords (ptD2 res) = (pt_x (ptB res) + dy res, pt_y (ptB res) - dx res)
    \<and> leftOK res = (keyOf (ptC res) \<in> mem \<and> keyOf (ptD res) \<in> mem)
    \<and> rightOK res = (keyOf (ptC2 res) \<in> mem \<and> keyOf (ptD2 res) \<in> mem)"
proof (cases "k \<le> seen")
  case True
  show ?thesis
    unfolding computeStep_rewind [OF assms True]
    by (simp add: infoOf_def coords_def leftC_def leftD_def rightC_def rightD_def
        rotLeft_def rotRight_def leftFound_def rightFound_def)
next
  case False
  show ?thesis
    unfolding computeStep_forward [OF assms False]
    by (simp add: infoOf_def coords_def leftC_def leftD_def rightC_def rightD_def
        rotLeft_def rotRight_def leftFound_def rightFound_def)
qed

theorem detector_step_witness:
  "at_index (pairs axisAligned) 0 = Some (0, 1)
   \<and> (\<exists>res carry'.
        computeStep axisAligned (pairs axisAligned) (membership axisAligned) 0 {} (- 1)
          = Inr (res, carry')
      \<and> coords (ptA res) = (1, 1) \<and> coords (ptB res) = (3, 1)
      \<and> dx res = 2 \<and> dy res = 0
      \<and> coords (ptC res) = (1, 3) \<and> coords (ptD res) = (3, 3)
      \<and> coords (ptC2 res) = (1, - 1) \<and> coords (ptD2 res) = (3, - 1)
      \<and> leftOK res \<and> \<not> rightOK res)"
proof -
  have h: "at_index (pairs axisAligned) 0 = Some (0, 1)"
    by code_simp
  from detector_step [OF h, of "membership axisAligned" "{}" "- 1"]
  obtain res carry' where
    r: "computeStep axisAligned (pairs axisAligned) (membership axisAligned) 0 {} (- 1)
          = Inr (res, carry')"
    and a: "ptA res = axisAligned ! 0" "ptB res = axisAligned ! 1"
    and d: "dx res = pt_x (ptB res) - pt_x (ptA res)" "dy res = pt_y (ptB res) - pt_y (ptA res)"
    and c: "coords (ptC res) = (pt_x (ptA res) - dy res, pt_y (ptA res) + dx res)"
      "coords (ptD res) = (pt_x (ptB res) - dy res, pt_y (ptB res) + dx res)"
      "coords (ptC2 res) = (pt_x (ptA res) + dy res, pt_y (ptA res) - dx res)"
      "coords (ptD2 res) = (pt_x (ptB res) + dy res, pt_y (ptB res) - dx res)"
    and l: "leftOK res = (keyOf (ptC res) \<in> membership axisAligned
              \<and> keyOf (ptD res) \<in> membership axisAligned)"
      "rightOK res = (keyOf (ptC2 res) \<in> membership axisAligned
              \<and> keyOf (ptD2 res) \<in> membership axisAligned)"
    by blast
  have a': "ptA res = mkPt 1 1 ''P0''" "ptB res = mkPt 3 1 ''P1''"
    using a by (simp_all add: axisAligned_def)
  have d': "dx res = 2" "dy res = 0"
    using d by (simp_all add: a' mkPt_def)
  have c': "coords (ptC res) = (1, 3)" "coords (ptD res) = (3, 3)"
    "coords (ptC2 res) = (1, - 1)" "coords (ptD2 res) = (3, - 1)"
    using c by (simp_all add: a' d' mkPt_def)
  have s: "coords ` set axisAligned
      = {(1, 1), (3, 1), (3, 3), (1, 3), (6, 3), (7, 2), (6, 1), (5, 2), (0, 0), (4, 0), (8, 3), (2, 4)}"
    by (simp add: axisAligned_def mkPt_def coords_def)
  have "leftOK res" "\<not> rightOK res"
    using l by (simp_all add: keyOf_in_membership c' s)
  with r a' d' c' h show ?thesis
    by (simp add: coords_def mkPt_def)
qed

subsection \<open>Forward runs and rewinds\<close>

lemma nextSteps_snoc:
  "nextSteps (Suc n) st = (case nextSteps n st of Inl e \<Rightarrow> Inl e | Inr st' \<Rightarrow> nextStep st')"
proof (induction n arbitrary: st)
  case 0
  then show ?case by (simp split: sum.splits)
next
  case (Suc n)
  show ?case
  proof (cases "nextStep st")
    case (Inl e)
    then show ?thesis by simp
  next
    case (Inr s)
    then have "nextSteps (Suc (Suc n)) st = nextSteps (Suc n) s" by simp
    also have "\<dots> = (case nextSteps n s of Inl e \<Rightarrow> Inl e | Inr st' \<Rightarrow> nextStep st')"
      by (rule Suc.IH)
    also have "nextSteps n s = nextSteps (Suc n) st" using Inr by simp
    finally show ?thesis .
  qed
qed

text \<open>The state after \<open>n\<close> forward steps from a reset, for \<open>n\<close> below the number of pairs.\<close>

lemma nextSteps_reset:
  assumes "n < length (pairs (points st))"
  shows "nextSteps n (reset st)
    = Inr (st\<lparr>playing := False, step := Num (int n),
              uniqueSquares := confirmedUpTo (points st) (membership (points st)) (int n - 1),
              seenUpTo := int n - 1\<rparr>)"
  using assms
proof (induction n)
  case 0
  then show ?case by (simp add: reset_def confirmedUpTo_neg)
next
  case (Suc n)
  let ?pts = "points st"
  let ?mem = "membership ?pts"
  from Suc.prems have n: "0 \<le> int n" "int n < int (length (pairs ?pts))" by simp_all
  then obtain i j where ij: "at_index (pairs ?pts) (int n) = Some (i, j)"
    by (rule at_index_pairs_ex)
  have f: "\<not> int n \<le> int n - 1" by simp
  have m: "sgn (int n + 1) * (\<bar>int n + 1\<bar> mod \<bar>int (length (pairs ?pts))\<bar>) = int n + 1"
    using Suc.prems by (simp add: sgn_if)
  have l: "pairs ?pts \<noteq> []" using Suc.prems by auto
  show ?case
    unfolding nextSteps_snoc
    using Suc.IH Suc.prems
    by (simp add: nextStep_def computeStepAt_def computeStep_forward [OF ij f]
        confirmedUpTo_step [of "int n", symmetric] js_add_def js_rem_def m l add.commute)
qed

lemma info_forward:
  assumes "n < length (pairs (points st))"
    and "nextSteps n (reset st) = Inr st'"
  shows "\<exists>res. info st' = Inr res
      \<and> uniqueCount res = card (confirmedUpTo (points st) (membership (points st)) (int n))
      \<and> newlyAddedSquares res
          = filter (\<lambda>s. s \<notin> uniqueSquares st') (confirmedKeys (points st) (membership (points st)) (int n))"
proof -
  let ?pts = "points st"
  from assms have n: "0 \<le> int n" "int n < int (length (pairs ?pts))" by simp_all
  then obtain i j where ij: "at_index (pairs ?pts) (int n) = Some (i, j)"
    by (rule at_index_pairs_ex)
  have f: "\<not> int n \<le> int n - 1" by simp
  from assms(2) have st': "st' = st\<lparr>playing := False, step := Num (int n),
              uniqueSquares := confirmedUpTo (points st) (membership (points st)) (int n - 1),
              seenUpTo := int n - 1\<rparr>"
    unfolding nextSteps_reset [OF assms(1)] by simp
  show ?thesis
    unfolding st'
    by (simp add: info_def computeStepAt_def computeStep_forward [OF ij f]
        confirmedUpTo_step [of "int n", symmetric] infoOf_def)
qed

text \<open>
  Claim C2. A step \<open>k\<close> at or below the high-water mark, evaluated on any registry,
  reports the \<open>uniqueCount\<close> that the display shows for step \<open>k\<close> after \<open>k\<close> forward steps
  from a reset (the steps \<open>0\<close> to \<open>k\<close> evaluated in order into an empty registry).
\<close>

theorem rewind_count_is_forward_count:
  assumes "0 \<le> k" and "k < int (length (pairs (points st)))" and "k \<le> seen"
  shows "\<exists>res carry' st' res'.
      computeStep (points st) (pairs (points st)) (membership (points st)) k carry seen
        = Inr (res, carry')
    \<and> nextSteps (nat k) (reset st) = Inr st'
    \<and> step st' = Num k
    \<and> info st' = Inr res'
    \<and> uniqueCount res = uniqueCount res'"
proof -
  let ?pts = "points st"
  from assms(1,2) obtain i j where ij: "at_index (pairs ?pts) k = Some (i, j)"
    by (rule at_index_pairs_ex)
  from assms have n: "nat k < length (pairs ?pts)" "int (nat k) = k" by simp_all
  from nextSteps_reset [OF n(1)] obtain st' where
    s: "nextSteps (nat k) (reset st) = Inr st'" and t: "step st' = Num k"
    using n(2) by simp
  from info_forward [OF n(1) s] obtain res' where
    r: "info st' = Inr res'"
      "uniqueCount res' = card (confirmedUpTo ?pts (membership ?pts) k)"
    using n(2) by auto
  show ?thesis
    unfolding computeStep_rewind [OF ij assms(3)]
    using s t r by (simp add: infoOf_def)
qed


theorem rewind_count_is_forward_count_witness:
  "(0 :: int) \<le> 1 \<and> 1 < int (length (pairs (points initial))) \<and> (1 :: int) \<le> 5
   \<and> (\<exists>res carry' st' res'.
      computeStep (points initial) (pairs (points initial)) (membership (points initial)) 1
          {''stale''} 5 = Inr (res, carry')
    \<and> nextSteps (nat 1) (reset initial) = Inr st'
    \<and> step st' = Num 1
    \<and> info st' = Inr res'
    \<and> uniqueCount res = uniqueCount res'
    \<and> uniqueCount res = 1)"
proof -
  have h: "1 < int (length (pairs (points initial)))"
    by code_simp
  have c: "(case computeStep (points initial) (pairs (points initial)) (membership (points initial)) 1
          {''stale''} 5 of Inl e \<Rightarrow> 0 | Inr (res, carry') \<Rightarrow> uniqueCount res) = 1"
    by code_simp
  from rewind_count_is_forward_count [of 1 initial 5 "{''stale''}"] h
  obtain res carry' st' res' where
    r: "computeStep (points initial) (pairs (points initial)) (membership (points initial)) 1
          {''stale''} 5 = Inr (res, carry')"
      "nextSteps (nat 1) (reset initial) = Inr st'" "step st' = Num 1" "info st' = Inr res'"
      "uniqueCount res = uniqueCount res'"
    by auto
  from c r(1) have u: "uniqueCount res = 1" by simp
  have t: "(0 :: int) \<le> 1" "(1 :: int) \<le> 5" by simp_all
  from t h r u show ?thesis by blast
qed

subsection \<open>Termination and nesting depth\<close>

text \<open>With a nested call that always returns, the loop agrees with \<open>rebuildFrom\<close>.\<close>

lemma rebuildWith_eq:
  assumes "\<And>u. 0 \<le> u \<Longrightarrow> once u = Some (computeStepOnce pts prs mem u)"
    and "0 \<le> t"
  shows "rebuildWith once t k acc = Some (rebuildFrom pts prs mem t k acc)"
  using assms(2)
proof (induction "nat (k + 1 - t)" arbitrary: t acc)
  case 0
  then have "\<not> t \<le> k" by simp
  then show ?case
    by (subst rebuildWith.simps, subst rebuildFrom.simps) simp
next
  case (Suc n)
  then have tk: "t \<le> k" by simp
  have n: "n = nat (k + 1 - (t + 1))" using Suc.hyps(2) by simp
  have t1: "0 \<le> t + 1" using Suc.prems by simp
  show ?case
    by (subst rebuildWith.simps, subst rebuildFrom.simps)
      (simp add: tk assms(1) [OF Suc.prems] Suc.hyps(1) [OF n t1] split: sum.splits)
qed

lemma computeStepDepth_no_rewind:
  assumes "\<not> (0 \<le> k \<and> k \<le> seen)"
  shows "computeStepDepth (Suc n) pts prs mem k carry seen
    = Some (computeStep pts prs mem k carry seen)"
proof (cases "at_index prs k")
  case None
  then show ?thesis
    by (subst computeStep.simps) simp
next
  case (Some p)
  then have "0 \<le> k" by (simp add: at_index_def split: if_splits)
  with assms have "\<not> k \<le> seen" by simp
  then show ?thesis
    by (subst computeStep.simps)
      (simp add: Some Let_def split_beta split: option.splits prod.splits)
qed

lemma computeStepDepth_two:
  "computeStepDepth (Suc (Suc n)) pts prs mem k carry seen
    = Some (computeStep pts prs mem k carry seen)"
proof -
  have once: "computeStepDepth (Suc n) pts prs mem u {} (- 1)
      = Some (computeStepOnce pts prs mem u)" if "0 \<le> u" for u
    using that by (simp add: computeStepDepth_no_rewind computeStepOnce.simps del: computeStepDepth.simps)
  have loop: "rebuildWith (\<lambda>t. computeStepDepth (Suc n) pts prs mem t {} (- 1)) 0 k {}
      = Some (rebuildFrom pts prs mem 0 k {})"
    by (rule rebuildWith_eq [where once = "\<lambda>t. computeStepDepth (Suc n) pts prs mem t {} (- 1)"])
      (simp_all add: once del: computeStepDepth.simps)
  show ?thesis
    by (subst computeStep.simps, subst computeStepDepth.simps)
     (simp add: loop Let_def split_beta del: computeStepDepth.simps
        split: option.splits prod.splits sum.splits)
qed


text \<open>
  Claim C10. \<open>computeStep\<close> terminates on every input. The function is total by the
  termination proof of its definition, whose measure drops from the outer call to the
  loop, from the loop to \<open>computeStepOnce\<close> and from there to a call with high-water mark
  \<open>-1\<close>, which cannot reach the loop again. Counting the depth: two nested activations
  are enough for every step index, registry and high-water mark, and one is enough for
  the call that \<open>computeStepOnce\<close> makes.
\<close>

theorem computeStep_depth_at_most_two:
  "computeStepDepth 2 pts prs mem k carry seen = Some (computeStep pts prs mem k carry seen)
   \<and> computeStepOnce pts prs mem t = computeStep pts prs mem t {} (- 1)
   \<and> computeStepDepth 1 pts prs mem t {} (- 1) = Some (computeStepOnce pts prs mem t)"
proof (intro conjI)
  have "computeStepDepth (Suc (Suc 0)) pts prs mem k carry seen
      = Some (computeStep pts prs mem k carry seen)"
    by (rule computeStepDepth_two)
  then show "computeStepDepth 2 pts prs mem k carry seen
      = Some (computeStep pts prs mem k carry seen)"
    by (simp only: numeral_2_eq_2)
  show "computeStepOnce pts prs mem t = computeStep pts prs mem t {} (- 1)"
    by (rule computeStepOnce.simps)
  have "\<not> (0 \<le> t \<and> t \<le> - 1)" by simp
  then have "computeStepDepth (Suc 0) pts prs mem t {} (- 1)
      = Some (computeStep pts prs mem t {} (- 1))"
    by (rule computeStepDepth_no_rewind)
  then show "computeStepDepth 1 pts prs mem t {} (- 1) = Some (computeStepOnce pts prs mem t)"
    by (simp only: One_nat_def computeStepOnce.simps)
qed

theorem computeStep_depth_at_most_two_witness:
  "computeStepDepth 2 axisAligned (pairs axisAligned) (membership axisAligned) 3 {''stale''} 10
     = Some (computeStep axisAligned (pairs axisAligned) (membership axisAligned) 3 {''stale''} 10)
   \<and> computeStepDepth 1 axisAligned (pairs axisAligned) (membership axisAligned) 3 {} (- 1)
     = Some (computeStepOnce axisAligned (pairs axisAligned) (membership axisAligned) 3)
   \<and> computeStepDepth 1 axisAligned (pairs axisAligned) (membership axisAligned) 3 {''stale''} 10
     = None"
proof -
  have "computeStepDepth 1 axisAligned (pairs axisAligned) (membership axisAligned) 3 {''stale''} 10
     = None"
    by code_simp
  with computeStep_depth_at_most_two
    [of axisAligned "pairs axisAligned" "membership axisAligned" 3 "{''stale''}" 10 3]
  show ?thesis by blast
qed

subsection \<open>The list of newly added keys\<close>

lemma length_edgeKeys: "length (edgeKeys a b mem) \<le> 2"
  by (simp add: edgeKeys_def)

lemma forward_registry:
  assumes "n < length (pairs (points st))"
  shows "confirmedUpTo (points st) mem (int n - 1)
    = (\<Union>t \<in> {..< n}. set (edgeKeys (points st ! fst (pairs (points st) ! t))
                                     (points st ! snd (pairs (points st) ! t)) mem))"
proof -
  have "{0 .. int n - 1} = int ` {..< n}"
    by (auto simp: image_iff) (metis nat_less_iff lessThan_iff nat_0_le zle_diff1_eq)
  then have "confirmedUpTo (points st) mem (int n - 1)
      = (\<Union>t \<in> {..< n}. set (confirmedKeys (points st) mem (int t)))"
    by (simp add: confirmedUpTo_def)
  also have "\<dots> = (\<Union>t \<in> {..< n}. set (edgeKeys (points st ! fst (pairs (points st) ! t))
                                     (points st ! snd (pairs (points st) ! t)) mem))"
    using assms by (simp add: confirmedKeys_nth)
  finally show ?thesis .
qed

lemma infoOf_fields:
  "newlyAddedSquares (infoOf p a b mem nw n) = nw"
  "leftOK (infoOf p a b mem nw n) = leftFound a b mem"
  "rightOK (infoOf p a b mem nw n) = rightFound a b mem"
  "ptA (infoOf p a b mem nw n) = a"
  "ptB (infoOf p a b mem nw n) = b"
  "ptC (infoOf p a b mem nw n) = leftC a b"
  "ptD (infoOf p a b mem nw n) = leftD a b"
  "ptC2 (infoOf p a b mem nw n) = rightC a b"
  "ptD2 (infoOf p a b mem nw n) = rightD a b"
  by (simp_all add: infoOf_def)

lemma infoOf_keys:
  "(if leftOK (infoOf p a b mem nw n)
    then [normalizeSquareKey [ptA (infoOf p a b mem nw n), ptB (infoOf p a b mem nw n),
                              ptC (infoOf p a b mem nw n), ptD (infoOf p a b mem nw n)]]
    else []) @
   (if rightOK (infoOf p a b mem nw n) \<and>
       \<not> (leftOK (infoOf p a b mem nw n) \<and>
          normalizeSquareKey [ptA (infoOf p a b mem nw n), ptB (infoOf p a b mem nw n),
                              ptC2 (infoOf p a b mem nw n), ptD2 (infoOf p a b mem nw n)]
          = normalizeSquareKey [ptA (infoOf p a b mem nw n), ptB (infoOf p a b mem nw n),
                                ptC (infoOf p a b mem nw n), ptD (infoOf p a b mem nw n)])
    then [normalizeSquareKey [ptA (infoOf p a b mem nw n), ptB (infoOf p a b mem nw n),
                              ptC2 (infoOf p a b mem nw n), ptD2 (infoOf p a b mem nw n)]]
    else [])
   = edgeKeys a b mem"
  by (simp only: infoOf_fields edgeKeys_def leftKey_def rightKey_def)

text \<open>
  Claim C8, amended. For every step \<open>k\<close> with pair \<open>(i, j)\<close>, \<open>newlyAddedSquares\<close> lists
  exactly the keys confirmed at step \<open>k\<close> that are not in the registry passed to the
  evaluation: the key of \<open>A, B, C, D\<close> when \<open>leftOK\<close> holds, then the key of
  \<open>A, B, C2, D2\<close> when \<open>rightOK\<close> holds (once when the two keys are equal), at most two
  entries. When the evaluation is handed the cells that \<open>k\<close> forward steps from a reset
  leave, as the next press of the step button does, the registry passed is the one of
  the steps \<open>0\<close> to \<open>k - 1\<close> evaluated in order from an empty registry.
\<close>

theorem newly_added_squares:
  assumes "at_index (pairs (points st)) k = Some (i, j)"
  shows "(\<exists>res carry'.
        computeStep (points st) (pairs (points st)) (membership (points st)) k carry seen
          = Inr (res, carry')
      \<and> newlyAddedSquares res
          = filter (\<lambda>s. s \<notin> carry)
              (edgeKeys (points st ! i) (points st ! j) (membership (points st)))
      \<and> newlyAddedSquares res
          = filter (\<lambda>s. s \<notin> carry)
              ((if leftOK res then [normalizeSquareKey [ptA res, ptB res, ptC res, ptD res]]
                else []) @
               (if rightOK res \<and>
                   \<not> (leftOK res \<and> normalizeSquareKey [ptA res, ptB res, ptC2 res, ptD2 res]
                                   = normalizeSquareKey [ptA res, ptB res, ptC res, ptD res])
                then [normalizeSquareKey [ptA res, ptB res, ptC2 res, ptD2 res]] else []))
      \<and> length (newlyAddedSquares res) \<le> 2)
    \<and> (\<exists>st' res' carry''.
        nextSteps (nat k) (reset st) = Inr st'
      \<and> points st' = points st \<and> step st' = Num k
      \<and> uniqueSquares st'
          = (\<Union>t \<in> {..< nat k}.
               set (edgeKeys (points st ! fst (pairs (points st) ! t))
                      (points st ! snd (pairs (points st) ! t)) (membership (points st))))
      \<and> computeStepAt (points st') (step st') (uniqueSquares st') (seenUpTo st')
          = Inr (res', carry'')
      \<and> newlyAddedSquares res'
          = filter (\<lambda>s. s \<notin> uniqueSquares st')
              (edgeKeys (points st ! i) (points st ! j) (membership (points st))))"
proof
  let ?pts = "points st"
  let ?mem = "membership ?pts"
  let ?keys = "edgeKeys (?pts ! i) (?pts ! j) ?mem"
  have l: "length (filter (\<lambda>s. s \<notin> carry) ?keys) \<le> 2"
    by (rule order_trans [OF length_filter_le length_edgeKeys])
  show "\<exists>res carry'.
        computeStep ?pts (pairs ?pts) ?mem k carry seen = Inr (res, carry')
      \<and> newlyAddedSquares res = filter (\<lambda>s. s \<notin> carry) ?keys
      \<and> newlyAddedSquares res
          = filter (\<lambda>s. s \<notin> carry)
              ((if leftOK res then [normalizeSquareKey [ptA res, ptB res, ptC res, ptD res]]
                else []) @
               (if rightOK res \<and>
                   \<not> (leftOK res \<and> normalizeSquareKey [ptA res, ptB res, ptC2 res, ptD2 res]
                                   = normalizeSquareKey [ptA res, ptB res, ptC res, ptD res])
                then [normalizeSquareKey [ptA res, ptB res, ptC2 res, ptD2 res]] else []))
      \<and> length (newlyAddedSquares res) \<le> 2"
  proof -
    define cnt where "cnt = (if k \<le> seen then card (confirmedUpTo ?pts ?mem k)
                             else card (carry \<union> set ?keys))"
    define reg where "reg = (if k \<le> seen then confirmedUpTo ?pts ?mem k
                             else carry \<union> set ?keys)"
    let ?res = "infoOf (i, j) (?pts ! i) (?pts ! j) ?mem (filter (\<lambda>s. s \<notin> carry) ?keys) cnt"
    have 1: "computeStep ?pts (pairs ?pts) ?mem k carry seen = Inr (?res, reg)"
    proof (cases "k \<le> seen")
      case True
      then show ?thesis
        unfolding computeStep_rewind [OF assms True] confirmedKeys_edge [OF assms]
        by (simp only: cnt_def reg_def if_True)
    next
      case False
      then show ?thesis
        unfolding computeStep_forward [OF assms False] confirmedKeys_edge [OF assms]
        by (simp only: cnt_def reg_def if_False)
    qed
    have 2: "newlyAddedSquares ?res = filter (\<lambda>s. s \<notin> carry) ?keys"
      by (simp only: infoOf_fields(1))
    have 3: "newlyAddedSquares ?res
          = filter (\<lambda>s. s \<notin> carry)
              ((if leftOK ?res then [normalizeSquareKey [ptA ?res, ptB ?res, ptC ?res, ptD ?res]]
                else []) @
               (if rightOK ?res \<and>
                   \<not> (leftOK ?res \<and> normalizeSquareKey [ptA ?res, ptB ?res, ptC2 ?res, ptD2 ?res]
                                   = normalizeSquareKey [ptA ?res, ptB ?res, ptC ?res, ptD ?res])
                then [normalizeSquareKey [ptA ?res, ptB ?res, ptC2 ?res, ptD2 ?res]] else []))"
      by (simp only: infoOf_keys infoOf_fields(1))
    have 4: "length (newlyAddedSquares ?res) \<le> 2"
      using l by (simp only: infoOf_fields(1))
    show ?thesis
      apply (intro exI conjI)
         apply (rule 1)
        apply (rule 2)
       apply (rule 3)
      apply (rule 4)
      done
  qed
  from at_index_pairs [OF assms] have k: "0 \<le> k" "k < int (length (pairs ?pts))"
    by simp_all
  then have n: "nat k < length (pairs ?pts)" "int (nat k) = k" by simp_all
  have f: "\<not> k \<le> k - 1" by simp
  let ?reg = "confirmedUpTo ?pts ?mem (k - 1)"
  let ?st' = "st\<lparr>playing := False, step := Num k, uniqueSquares := ?reg, seenUpTo := k - 1\<rparr>"
  let ?res' = "infoOf (i, j) (?pts ! i) (?pts ! j) ?mem (filter (\<lambda>s. s \<notin> ?reg) ?keys)
                 (card (?reg \<union> set ?keys))"
  have 1: "nextSteps (nat k) (reset st) = Inr ?st'"
    using nextSteps_reset [OF n(1)] by (simp only: n(2))
  have 2: "points ?st' = ?pts" and 3: "step ?st' = Num k"
    by simp_all
  have u: "uniqueSquares ?st' = ?reg" and v: "seenUpTo ?st' = k - 1"
    by simp_all
  have 4: "uniqueSquares ?st'
      = (\<Union>t \<in> {..< nat k}.
           set (edgeKeys (?pts ! fst (pairs ?pts ! t)) (?pts ! snd (pairs ?pts ! t)) ?mem))"
  proof -
    have "?reg = (\<Union>t \<in> {..< nat k}.
           set (edgeKeys (?pts ! fst (pairs ?pts ! t)) (?pts ! snd (pairs ?pts ! t)) ?mem))"
      using forward_registry [OF n(1), of ?mem] by (simp only: n(2))
    with u show ?thesis by (rule trans)
  qed
  have 5: "computeStepAt (points ?st') (step ?st') (uniqueSquares ?st') (seenUpTo ?st')
      = Inr (?res', ?reg \<union> set ?keys)"
    unfolding 2 3 u v
    by (simp add: computeStepAt_def computeStep_forward [OF assms f] confirmedKeys_edge [OF assms])
  have 6: "newlyAddedSquares ?res' = filter (\<lambda>s. s \<notin> uniqueSquares ?st') ?keys"
    by (simp only: infoOf_fields(1) u)
  show "\<exists>st' res' carry''.
        nextSteps (nat k) (reset st) = Inr st'
      \<and> points st' = ?pts \<and> step st' = Num k
      \<and> uniqueSquares st'
          = (\<Union>t \<in> {..< nat k}.
               set (edgeKeys (?pts ! fst (pairs ?pts ! t)) (?pts ! snd (pairs ?pts ! t)) ?mem))
      \<and> computeStepAt (points st') (step st') (uniqueSquares st') (seenUpTo st')
          = Inr (res', carry'')
      \<and> newlyAddedSquares res' = filter (\<lambda>s. s \<notin> uniqueSquares st') ?keys"
    apply (intro exI conjI)
         apply (rule 1)
        apply (rule 2)
       apply (rule 3)
      apply (rule 4)
     apply (rule 5)
    apply (rule 6)
    done
qed

theorem newly_added_squares_witness:
  "at_index (pairs (points initial)) 2 = Some (0, 3)
   \<and> \<not> leftFound (points initial ! 0) (points initial ! 3) (membership (points initial))
   \<and> rightFound (points initial ! 0) (points initial ! 3) (membership (points initial))
   \<and> (\<exists>res carry'.
        computeStep (points initial) (pairs (points initial)) (membership (points initial)) 2
            {} (- 1) = Inr (res, carry')
      \<and> newlyAddedSquares res = [''1,1|1,3|3,1|3,3''])
   \<and> (\<exists>st' res' carry''.
        nextSteps (nat 2) (reset initial) = Inr st'
      \<and> uniqueSquares st' = {''1,1|1,3|3,1|3,3''}
      \<and> computeStepAt (points st') (step st') (uniqueSquares st') (seenUpTo st')
          = Inr (res', carry'')
      \<and> newlyAddedSquares res' = [])"
proof -
  let ?pts = "points initial"
  let ?mem = "membership ?pts"
  let ?K = "''1,1|1,3|3,1|3,3''"
  have h: "at_index (pairs ?pts) 2 = Some (0, 3)"
    by code_simp
  have f1: "\<not> leftFound (?pts ! 0) (?pts ! 3) ?mem"
    by code_simp
  have f2: "rightFound (?pts ! 0) (?pts ! 3) ?mem"
    by code_simp
  have e: "edgeKeys (?pts ! 0) (?pts ! 3) ?mem = [?K]"
    by code_simp
  have e0: "set (edgeKeys (?pts ! fst (pairs ?pts ! 0)) (?pts ! snd (pairs ?pts ! 0)) ?mem) = {?K}"
    by code_simp
  have e1: "set (edgeKeys (?pts ! fst (pairs ?pts ! Suc 0)) (?pts ! snd (pairs ?pts ! Suc 0)) ?mem) = {}"
    by code_simp
  have u: "(\<Union>t \<in> {..< nat 2}. G t) = G 0 \<union> G (Suc 0)" for G :: "nat \<Rightarrow> string set"
  proof -
    have "{..< nat 2} = {0, Suc 0}" by auto
    then show ?thesis by simp
  qed
  have r: "(\<Union>t \<in> {..< nat 2}.
       set (edgeKeys (?pts ! fst (pairs ?pts ! t)) (?pts ! snd (pairs ?pts ! t)) ?mem))
      = {?K}"
    unfolding u e0 e1 by (rule Un_empty_right)
  note t = newly_added_squares [OF h, of "{}" "- 1"]
  from t [THEN conjunct1] obtain res carry' where
    a1: "computeStep ?pts (pairs ?pts) ?mem 2 {} (- 1) = Inr (res, carry')"
    and a2: "newlyAddedSquares res = filter (\<lambda>s. s \<notin> {}) (edgeKeys (?pts ! 0) (?pts ! 3) ?mem)"
    by (elim exE conjE)
  from a2 have a3: "newlyAddedSquares res = [?K]"
    unfolding e by simp
  from t [THEN conjunct2] obtain st' res' carry'' where
    b1: "nextSteps (nat 2) (reset initial) = Inr st'"
    and b2: "uniqueSquares st' = (\<Union>t \<in> {..< nat 2}.
       set (edgeKeys (?pts ! fst (pairs ?pts ! t)) (?pts ! snd (pairs ?pts ! t)) ?mem))"
    and b3: "computeStepAt (points st') (step st') (uniqueSquares st') (seenUpTo st')
          = Inr (res', carry'')"
    and b4: "newlyAddedSquares res'
          = filter (\<lambda>s. s \<notin> uniqueSquares st') (edgeKeys (?pts ! 0) (?pts ! 3) ?mem)"
    by (elim exE conjE)
  from b2 have b5: "uniqueSquares st' = {?K}"
    by (simp only: r)
  from b4 have b6: "newlyAddedSquares res' = []"
    unfolding e b5 by simp
  have a: "\<exists>res carry'.
        computeStep ?pts (pairs ?pts) ?mem 2 {} (- 1) = Inr (res, carry')
      \<and> newlyAddedSquares res = [?K]"
    using a1 a3 by (intro exI conjI)
  have b: "\<exists>st' res' carry''.
        nextSteps (nat 2) (reset initial) = Inr st'
      \<and> uniqueSquares st' = {?K}
      \<and> computeStepAt (points st') (step st') (uniqueSquares st') (seenUpTo st')
          = Inr (res', carry'')
      \<and> newlyAddedSquares res' = []"
    using b1 b5 b3 b6 by (intro exI conjI)
  from h f1 f2 a b show ?thesis
    by (intro conjI)
qed

text \<open>
  Claim C8 as stated fails after a rewind. One step forward from the initial state and
  one step back, the step index is \<open>0\<close> again (it changed, so the memo runs) and the
  registry is the one the forward step left. Step \<open>0\<close> has \<open>leftOK\<close> and confirms one
  key, and the registry of the steps before step \<open>0\<close> is empty, so the claim asks for a
  list with that key. The list is empty.
\<close>

theorem newly_added_after_rewind_counterexample:
  "\<not> isl (nextStep initial)
   \<and> step (prevStep (projr (nextStep initial))) = Num 0
   \<and> seenUpTo (prevStep (projr (nextStep initial))) = 0
   \<and> uniqueSquares (prevStep (projr (nextStep initial))) = {''1,1|1,3|3,1|3,3''}
   \<and> \<not> isl (info (prevStep (projr (nextStep initial))))
   \<and> leftOK (projr (info (prevStep (projr (nextStep initial)))))
   \<and> newlyAddedSquares (projr (info (prevStep (projr (nextStep initial))))) = []
   \<and> edgeKeys (axisAligned ! 0) (axisAligned ! 1) (membership axisAligned)
       = [''1,1|1,3|3,1|3,3'']
   \<and> \<not> isl (nextSteps 0 (reset initial))
   \<and> uniqueSquares (projr (nextSteps 0 (reset initial))) = {}"
  by code_simp

subsection \<open>Degenerate pairs, empty pair lists, reset\<close>

text \<open>
  A pair of coinciding points of the sequence passes both tests against the membership
  set of the sequence: all four candidates coincide with the point itself.
\<close>

lemma degenerate_pair_found:
  assumes "coords a = coords b" and "a \<in> set pts"
  shows "leftFound a b (membership pts) \<and> rightFound a b (membership pts)"
proof -
  from assms(1) have "coords (leftC a b) = coords a" "coords (leftD a b) = coords a"
    "coords (rightC a b) = coords a" "coords (rightD a b) = coords a"
    by (simp_all add: coords_def leftC_def leftD_def rightC_def rightD_def rotLeft_def rotRight_def)
  with assms(2) show ?thesis
    by (simp add: leftFound_def rightFound_def keyOf_in_membership)
qed

text \<open>
  Claim C3 against the code. The sample points with \<open>(1, 1)\<close> appended twice: the pair
  of the two appended points is the last of the 91 pairs. Its edge vector is zero, and
  the step reports \<open>leftOK\<close> and \<open>rightOK\<close>, adds the key of the four coinciding corners
  to the empty registry and counts one square. No exception is raised.
\<close>

theorem degenerate_pair_reports_square:
  "at_index (pairs (axisAligned @ [mkPt 1 1 ''P12'', mkPt 1 1 ''P13''])) 90 = Some (12, 13)
   \<and> computeStepAt (axisAligned @ [mkPt 1 1 ''P12'', mkPt 1 1 ''P13'']) (Num 90) {} (- 1)
     = Inr (\<lparr>pair = (12, 13), ptA = mkPt 1 1 ''P12'', ptB = mkPt 1 1 ''P13'',
              dx = 0, dy = 0, ldx = 0, ldy = 0, rdx = 0, rdy = 0,
              ptC = mkPt 1 1 ''C'', ptD = mkPt 1 1 ''D'',
              ptC2 = mkPt 1 1 (''C'' @ [CHR 0x27]), ptD2 = mkPt 1 1 (''D'' @ [CHR 0x27]),
              leftOK = True, rightOK = True,
              newlyAddedSquares = [''1,1|1,1|1,1|1,1''], uniqueCount = 1\<rparr>,
            {''1,1|1,1|1,1|1,1''})"
  by code_simp

text \<open>
  Claim C6 as stated fails. With no points there are no pairs; the step button raises
  and the back button turns the step index into \<open>NaN\<close>.
\<close>

theorem stepping_on_empty_pairs_counterexample:
  "pairs (points (initial\<lparr>points := []\<rparr>)) = []
   \<and> step (initial\<lparr>points := []\<rparr>) = Num 0
   \<and> nextStep (initial\<lparr>points := []\<rparr>) = Inl TypeError
   \<and> step (prevStep (initial\<lparr>points := []\<rparr>)) = NaN"
  by code_simp

text \<open>
  Claim C6, amended. With fewer than two points the pair list is empty. In that state
  \<open>nextStep\<close> raises a \<open>TypeError\<close> before it writes any cell, and \<open>prevStep\<close> leaves
  the registry and the high-water mark as they are and sets the step index to \<open>NaN\<close>.
\<close>

theorem stepping_on_empty_pairs:
  assumes "length (points st) < 2"
  shows "pairs (points st) = []
    \<and> nextStep st = Inl TypeError
    \<and> prevStep st = st\<lparr>step := NaN\<rparr>"
proof -
  from assms have "length (points st) * (length (points st) - 1) div 2 = 0"
    by (cases "length (points st)") auto
  then have p: "pairs (points st) = []"
    using length_pairs [of "points st"] by simp
  have a: "at_index ([] :: Pair list) k = None" for k
    by (simp add: at_index_def)
  have n: "nextStep st = Inl TypeError"
    by (cases "step st")
      (simp_all add: nextStep_def computeStepAt_def p computeStep.simps a)
  have "prevStep st = st\<lparr>step := NaN\<rparr>"
    by (cases "step st") (simp_all add: prevStep_def p js_add_def js_rem_def)
  with p n show ?thesis by simp
qed

theorem stepping_on_empty_pairs_witness:
  "length (points (initial\<lparr>points := [mkPt 1 1 ''P0'']\<rparr>)) < 2
   \<and> pairs (points (initial\<lparr>points := [mkPt 1 1 ''P0'']\<rparr>)) = []
   \<and> nextStep (initial\<lparr>points := [mkPt 1 1 ''P0'']\<rparr>) = Inl TypeError
   \<and> prevStep (initial\<lparr>points := [mkPt 1 1 ''P0'']\<rparr>)
       = initial\<lparr>points := [mkPt 1 1 ''P0''], step := NaN\<rparr>"
proof -
  have h: "length (points (initial\<lparr>points := [mkPt 1 1 ''P0'']\<rparr>)) < 2"
    by simp
  from stepping_on_empty_pairs [OF h] h show ?thesis
    by simp
qed

text \<open>
  Claim C9 as stated fails. After one forward step from the initial state the registry
  holds a key and the high-water mark is \<open>0\<close>; replacing the point sequence leaves both
  as they are.
\<close>

theorem point_change_keeps_registry_counterexample:
  "\<not> isl (nextStep initial)
   \<and> points (setPoints (projr (nextStep initial)) [mkPt 0 0 ''Q0'', mkPt 5 0 ''Q1''])
       = [mkPt 0 0 ''Q0'', mkPt 5 0 ''Q1'']
   \<and> uniqueSquares (setPoints (projr (nextStep initial)) [mkPt 0 0 ''Q0'', mkPt 5 0 ''Q1''])
       = {''1,1|1,3|3,1|3,3''}
   \<and> seenUpTo (setPoints (projr (nextStep initial)) [mkPt 0 0 ''Q0'', mkPt 5 0 ''Q1'']) = 0"
  by code_simp

text \<open>
  Claim C9, amended. An explicit reset empties the registry, sets the high-water mark to
  \<open>-1\<close> and the step index to \<open>0\<close>, stops playback and keeps the points. A change of
  the point sequence keeps the registry, the high-water mark and the step index; the
  next evaluation uses the pair list and the membership set of the new sequence.
\<close>

theorem reset_and_point_change:
  "uniqueSquares (reset st) = {} \<and> seenUpTo (reset st) = - 1 \<and> step (reset st) = Num 0
   \<and> playing (reset st) = False \<and> points (reset st) = points st
   \<and> uniqueSquares (setPoints st pts) = uniqueSquares st
   \<and> seenUpTo (setPoints st pts) = seenUpTo st
   \<and> step (setPoints st pts) = step st
   \<and> info (setPoints st pts)
       = (case step st of
            NaN \<Rightarrow> Inl TypeError
          | Num k \<Rightarrow> map_sum id fst
              (computeStep pts (pairs pts) (membership pts) k (uniqueSquares st) (seenUpTo st)))"
  by (cases "step st")
    (auto simp: reset_def setPoints_def info_def computeStepAt_def split: sum.splits)

theorem reset_and_point_change_witness:
  "uniqueSquares (reset (projr (nextStep initial))) = {}
   \<and> seenUpTo (reset (projr (nextStep initial))) = - 1
   \<and> step (reset (projr (nextStep initial))) = Num 0
   \<and> playing (reset (projr (nextStep initial))) = False
   \<and> uniqueSquares (setPoints (projr (nextStep initial)) []) = uniqueSquares (projr (nextStep initial))
   \<and> seenUpTo (setPoints (projr (nextStep initial)) []) = seenUpTo (projr (nextStep initial))"
  using reset_and_point_change [of "projr (nextStep initial)" "[]"] by simp

subsection \<open>Squares among the points\<close>

lemma set_edgeKeys:
  "set (edgeKeys a b mem)
    = {k. (leftFound a b mem \<and> k = leftKey a b) \<or> (rightFound a b mem \<and> k = rightKey a b)}"
  by (auto simp: edgeKeys_def)

lemma confirmedUpTo_all:
  "confirmedUpTo pts mem (int (length (pairs pts)) - 1)
    = (\<Union>p \<in> set (pairs pts). set (edgeKeys (pts ! fst p) (pts ! snd p) mem))"
proof -
  have "{0 .. int (length (pairs pts)) - 1} = int ` {..< length (pairs pts)}"
    by (auto simp: image_iff) (metis nat_less_iff lessThan_iff nat_0_le zle_diff1_eq)
  then have "confirmedUpTo pts mem (int (length (pairs pts)) - 1)
      = (\<Union>n \<in> {..< length (pairs pts)}. set (confirmedKeys pts mem (int n)))"
    by (simp add: confirmedUpTo_def)
  also have "\<dots> = (\<Union>n \<in> {..< length (pairs pts)}.
      set (edgeKeys (pts ! fst (pairs pts ! n)) (pts ! snd (pairs pts ! n)) mem))"
    by (simp add: confirmedKeys_nth)
  also have "\<dots> = (\<Union>p \<in> (\<lambda>n. pairs pts ! n) ` {..< length (pairs pts)}.
      set (edgeKeys (pts ! fst p) (pts ! snd p) mem))"
    by (simp add: image_image)
  also have "(\<lambda>n. pairs pts ! n) ` {..< length (pairs pts)} = set (pairs pts)"
    by (auto simp: set_conv_nth)
  finally show ?thesis .
qed

lemma confirmed_keys_of_corners:
  "confirmedUpTo pts (membership pts) (int (length (pairs pts)) - 1)
    = normalizeSquareKey ` foundCorners pts"
  unfolding confirmedUpTo_all set_edgeKeys foundCorners_def leftKey_def rightKey_def
  by (auto simp: image_iff)


lemma coords_candidates:
  "coords (leftC a b) = (pt_x a - (pt_y b - pt_y a), pt_y a + (pt_x b - pt_x a))"
  "coords (leftD a b) = (pt_x b - (pt_y b - pt_y a), pt_y b + (pt_x b - pt_x a))"
  "coords (rightC a b) = (pt_x a + (pt_y b - pt_y a), pt_y a - (pt_x b - pt_x a))"
  "coords (rightD a b) = (pt_x b + (pt_y b - pt_y a), pt_y b - (pt_x b - pt_x a))"
  by (simp_all add: coords_def leftC_def leftD_def rightC_def rightD_def rotLeft_def rotRight_def)

lemma corners_distinct:
  assumes "coords a \<noteq> coords b"
  shows "distinct (map coords [a, b, leftC a b, leftD a b])"
    and "distinct (map coords [a, b, rightC a b, rightD a b])"
proof -
  from assms have ne: "pt_x a \<noteq> pt_x b \<or> pt_y a \<noteq> pt_y b"
    by (simp add: coords_def)
  show "distinct (map coords [a, b, leftC a b, leftD a b])"
    using ne by (simp add: coords_candidates) (simp add: coords_def, presburger)
  show "distinct (map coords [a, b, rightC a b, rightD a b])"
    using ne by (simp add: coords_candidates) (simp add: coords_def, presburger)
qed

lemma left_corners_square:
  assumes "coords a \<noteq> coords b"
  shows "is_square (coords ` set [a, b, leftC a b, leftD a b])"
  unfolding is_square_def
proof (intro exI conjI)
  show "(pt_x b - pt_x a, pt_y b - pt_y a) \<noteq> (0, 0)"
    using assms by (auto simp: coords_def)
  show "coords ` set [a, b, leftC a b, leftD a b]
      = {(pt_x a, pt_y a), (pt_x a + (pt_x b - pt_x a), pt_y a + (pt_y b - pt_y a)),
         (pt_x a + (pt_x b - pt_x a) - (pt_y b - pt_y a),
          pt_y a + (pt_y b - pt_y a) + (pt_x b - pt_x a)),
         (pt_x a - (pt_y b - pt_y a), pt_y a + (pt_x b - pt_x a))}"
    by (simp add: coords_candidates) (simp add: coords_def insert_commute algebra_simps)
qed

lemma right_corners_square:
  assumes "coords a \<noteq> coords b"
  shows "is_square (coords ` set [a, b, rightC a b, rightD a b])"
  unfolding is_square_def
proof (intro exI conjI)
  show "(pt_x a - pt_x b, pt_y a - pt_y b) \<noteq> (0, 0)"
    using assms by (auto simp: coords_def)
  show "coords ` set [a, b, rightC a b, rightD a b]
      = {(pt_x b, pt_y b), (pt_x b + (pt_x a - pt_x b), pt_y b + (pt_y a - pt_y b)),
         (pt_x b + (pt_x a - pt_x b) - (pt_y a - pt_y b),
          pt_y b + (pt_y a - pt_y b) + (pt_x a - pt_x b)),
         (pt_x b - (pt_y a - pt_y b), pt_y b + (pt_x a - pt_x b))}"
    by (simp add: coords_candidates) (simp add: coords_def insert_commute algebra_simps)
qed

lemma pair_coords_differ:
  assumes "distinct (map coords pts)" and "p \<in> set (pairs pts)"
  shows "coords (pts ! fst p) \<noteq> coords (pts ! snd p)"
proof -
  from assms(2) have "fst p < snd p" "snd p < length pts"
    by (auto simp: set_pairs)
  then have i: "fst p < length (map coords pts)" "snd p < length (map coords pts)" "fst p \<noteq> snd p"
    by simp_all
  with assms(1) have "map coords pts ! fst p \<noteq> map coords pts ! snd p"
    unfolding distinct_conv_nth by blast
  with i show ?thesis by simp
qed

lemma found_corners_are_squares:
  assumes "distinct (map coords pts)" and "l \<in> foundCorners pts"
  shows "distinct (map coords l) \<and> coords ` set l \<in> squares_among pts"
proof -
  from assms(2) obtain p where p: "p \<in> set (pairs pts)"
    and l: "(leftFound (pts ! fst p) (pts ! snd p) (membership pts)
          \<and> l = [pts ! fst p, pts ! snd p, leftC (pts ! fst p) (pts ! snd p),
                  leftD (pts ! fst p) (pts ! snd p)])
      \<or> (rightFound (pts ! fst p) (pts ! snd p) (membership pts)
          \<and> l = [pts ! fst p, pts ! snd p, rightC (pts ! fst p) (pts ! snd p),
                  rightD (pts ! fst p) (pts ! snd p)])"
    unfolding foundCorners_def by blast
  let ?a = "pts ! fst p" and ?b = "pts ! snd p"
  from p have i: "fst p < length pts" "snd p < length pts"
    by (auto simp: set_pairs)
  then have ab: "coords ?a \<in> coords ` set pts" "coords ?b \<in> coords ` set pts"
    by simp_all
  note d = pair_coords_differ [OF assms(1) p]
  from l show ?thesis
  proof
    assume f: "leftFound ?a ?b (membership pts) \<and> l = [?a, ?b, leftC ?a ?b, leftD ?a ?b]"
    then have "coords (leftC ?a ?b) \<in> coords ` set pts" "coords (leftD ?a ?b) \<in> coords ` set pts"
      by (simp_all add: leftFound_def keyOf_in_membership)
    with ab have "coords ` set [?a, ?b, leftC ?a ?b, leftD ?a ?b] \<subseteq> coords ` set pts"
      by simp
    with f corners_distinct(1) [OF d] left_corners_square [OF d] show ?thesis
      by (simp add: squares_among_def)
  next
    assume f: "rightFound ?a ?b (membership pts) \<and> l = [?a, ?b, rightC ?a ?b, rightD ?a ?b]"
    then have "coords (rightC ?a ?b) \<in> coords ` set pts" "coords (rightD ?a ?b) \<in> coords ` set pts"
      by (simp_all add: rightFound_def keyOf_in_membership)
    with ab have "coords ` set [?a, ?b, rightC ?a ?b, rightD ?a ?b] \<subseteq> coords ` set pts"
      by simp
    with f corners_distinct(2) [OF d] right_corners_square [OF d] show ?thesis
      by (simp add: squares_among_def)
  qed
qed

lemma squares_are_found:
  assumes "S \<in> squares_among pts"
  shows "\<exists>l \<in> foundCorners pts. coords ` set l = S"
proof -
  from assms obtain px py vx vy where v: "(vx, vy) \<noteq> (0, 0)"
    and S: "S = {(px, py), (px + vx, py + vy), (px + vx - vy, py + vy + vx), (px - vy, py + vx)}"
    and sub: "S \<subseteq> coords ` set pts"
    unfolding squares_among_def is_square_def by blast
  from S sub have "(px, py) \<in> coords ` set pts" "(px + vx, py + vy) \<in> coords ` set pts"
    by auto
  then obtain i j where i: "i < length pts" "coords (pts ! i) = (px, py)"
    and j: "j < length pts" "coords (pts ! j) = (px + vx, py + vy)"
    by (auto simp: in_set_conv_nth)
  from i j v have "i \<noteq> j" by auto
  from i(2) j(2) have xy: "pt_x (pts ! i) = px" "pt_y (pts ! i) = py"
    "pt_x (pts ! j) = px + vx" "pt_y (pts ! j) = py + vy"
    by (simp_all add: coords_def)
  show ?thesis
  proof (cases "i < j")
    case True
    let ?a = "pts ! i" and ?b = "pts ! j"
    let ?l = "[?a, ?b, leftC ?a ?b, leftD ?a ?b]"
    from True j(1) have p: "(i, j) \<in> set (pairs pts)" by (simp add: set_pairs)
    have c: "coords (leftC ?a ?b) = (px - vy, py + vx)"
      "coords (leftD ?a ?b) = (px + vx - vy, py + vy + vx)"
      by (simp_all add: coords_candidates xy)
    with S sub have "leftFound ?a ?b (membership pts)"
      by (auto simp: leftFound_def keyOf_in_membership)
    with p have "?l \<in> foundCorners pts"
      unfolding foundCorners_def by force
    moreover have "coords ` set ?l = S"
      by (simp add: c i(2) j(2) S insert_commute)
    ultimately show ?thesis by blast
  next
    case False
    with \<open>i \<noteq> j\<close> have ji: "j < i" by simp
    let ?a = "pts ! j" and ?b = "pts ! i"
    let ?l = "[?a, ?b, rightC ?a ?b, rightD ?a ?b]"
    from ji i(1) have p: "(j, i) \<in> set (pairs pts)" by (simp add: set_pairs)
    have c: "coords (rightC ?a ?b) = (px + vx - vy, py + vy + vx)"
      "coords (rightD ?a ?b) = (px - vy, py + vx)"
      by (simp_all add: coords_candidates xy)
    with S sub have "rightFound ?a ?b (membership pts)"
      by (auto simp: rightFound_def keyOf_in_membership)
    with p have "?l \<in> foundCorners pts"
      unfolding foundCorners_def by force
    moreover have "coords ` set ?l = S"
      by (simp add: c i(2) j(2) S insert_commute)
    ultimately show ?thesis by blast
  qed
qed

lemma card_image_same_kernel:
  assumes "\<And>x y. x \<in> F \<Longrightarrow> y \<in> F \<Longrightarrow> (f x = f y) = (g x = g y)"
  shows "card (f ` F) = card (g ` F)"
proof -
  define h where "h u = g (inv_into F f u)" for u
  have hf: "h (f x) = g x" if "x \<in> F" for x
  proof -
    let ?y = "inv_into F f (f x)"
    have "f x \<in> f ` F" using that by (rule imageI)
    then have y: "?y \<in> F" and "f ?y = f x"
      by (rule inv_into_into, rule f_inv_into_f)
    then have "g ?y = g x" using assms [OF y that] by simp
    then show ?thesis by (simp only: h_def)
  qed
  have inj: "inj_on h (f ` F)"
  proof (rule inj_onI)
    fix u w assume "u \<in> f ` F" and "w \<in> f ` F" and e: "h u = h w"
    then obtain x y where x: "x \<in> F" "u = f x" and y: "y \<in> F" "w = f y" by blast
    from e have "g x = g y" by (simp only: x(2) y(2) hf [OF x(1)] hf [OF y(1)])
    then have "f x = f y" by (simp only: assms [OF x(1) y(1)])
    then show "u = w" by (simp only: x(2) y(2))
  qed
  have "h ` f ` F = (\<lambda>x. h (f x)) ` F" by (rule image_image)
  also have "\<dots> = g ` F" by (rule image_cong [OF refl hf])
  finally have "card (g ` F) = card (h ` f ` F)" by simp
  also have "\<dots> = card (f ` F)" using inj by (rule card_image)
  finally show ?thesis by simp
qed

lemma found_keys_count:
  assumes "distinct (map coords pts)"
  shows "card (confirmedUpTo pts (membership pts) (int (length (pairs pts)) - 1))
    = card (squares_among pts)"
proof -
  have "card (normalizeSquareKey ` foundCorners pts)
      = card ((\<lambda>l. coords ` set l) ` foundCorners pts)"
  proof (rule card_image_same_kernel)
    fix l m assume "l \<in> foundCorners pts" "m \<in> foundCorners pts"
    then have "distinct (map coords l)" "distinct (map coords m)"
      using found_corners_are_squares [OF assms] by blast+
    then have "(mset (map coords l) = mset (map coords m))
        = (set (map coords l) = set (map coords m))"
      by (simp only: set_eq_iff_mset_eq_distinct)
    then show "(normalizeSquareKey l = normalizeSquareKey m) = (coords ` set l = coords ` set m)"
      by (simp add: normalizeSquareKey_eq_iff)
  qed
  moreover have "(\<lambda>l. coords ` set l) ` foundCorners pts = squares_among pts"
  proof
    show "(\<lambda>l. coords ` set l) ` foundCorners pts \<subseteq> squares_among pts"
      using found_corners_are_squares [OF assms] by blast
    show "squares_among pts \<subseteq> (\<lambda>l. coords ` set l) ` foundCorners pts"
      using squares_are_found by (fastforce simp: image_iff)
  qed
  ultimately show ?thesis
    by (simp add: confirmed_keys_of_corners)
qed

subsection \<open>The forward run\<close>

lemma forwardCount_eq:
  assumes "n < length (pairs (points st))"
  shows "forwardCount st n
    = Some (card (confirmedUpTo (points st) (membership (points st)) (int n)))"
proof -
  let ?pts = "points st"
  from assms have n: "0 \<le> int n" "int n < int (length (pairs ?pts))" by simp_all
  then obtain i j where ij: "at_index (pairs ?pts) (int n) = Some (i, j)"
    by (rule at_index_pairs_ex)
  have f: "\<not> int n \<le> int n - 1" by simp
  show ?thesis
    unfolding forwardCount_def nextSteps_reset [OF assms]
    by (simp add: computeStepAt_def computeStep_forward [OF ij f]
        confirmedUpTo_step [of "int n", symmetric] infoOf_def)
qed

lemma confirmedUpTo_mono: "k \<le> k' \<Longrightarrow> confirmedUpTo pts mem k \<subseteq> confirmedUpTo pts mem k'"
  unfolding confirmedUpTo_def by (rule UN_mono) auto

lemma pairs_nonempty: "2 \<le> length pts \<Longrightarrow> 0 < length (pairs pts)"
proof -
  assume "2 \<le> length pts"
  then have "(0, 1) \<in> set (pairs pts)" by (simp add: set_pairs)
  then show ?thesis by (cases "pairs pts") auto
qed

text \<open>
  The forward run on a sequence of points with pairwise distinct coordinates: the counts
  never decrease, and the count of the last step is the number of squares among the
  points. The first part needs no assumption on the coordinates.
\<close>

lemma forward_run_counts_squares:
  assumes "distinct (map coords (points st))" and "2 \<le> length (points st)"
  shows "(\<forall>m n. m \<le> n \<and> n < length (pairs (points st)) \<longrightarrow>
            (\<exists>a b. forwardCount st m = Some a \<and> forwardCount st n = Some b \<and> a \<le> b))
    \<and> forwardCount st (length (pairs (points st)) - 1) = Some (card (squares_among (points st)))"
proof (intro conjI allI impI)
  let ?pts = "points st"
  let ?mem = "membership ?pts"
  fix m n assume mn: "m \<le> n \<and> n < length (pairs ?pts)"
  then have "card (confirmedUpTo ?pts ?mem (int m)) \<le> card (confirmedUpTo ?pts ?mem (int n))"
    by (intro card_mono finite_confirmedUpTo confirmedUpTo_mono) simp
  with mn show "\<exists>a b. forwardCount st m = Some a \<and> forwardCount st n = Some b \<and> a \<le> b"
    by (simp add: forwardCount_eq)
next
  let ?pts = "points st"
  from assms(2) have l: "0 < length (pairs ?pts)" by (rule pairs_nonempty)
  then have "length (pairs ?pts) - 1 < length (pairs ?pts)"
    "int (length (pairs ?pts) - 1) = int (length (pairs ?pts)) - 1"
    by linarith+
  then show "forwardCount st (length (pairs ?pts) - 1) = Some (card (squares_among ?pts))"
    by (simp add: forwardCount_eq found_keys_count [OF assms(1)])
qed

lemma square_two_corners:
  assumes "is_square S"
  shows "\<exists>p q. p \<in> S \<and> q \<in> S \<and> p \<noteq> q"
proof -
  from assms obtain px py vx vy where v: "(vx, vy) \<noteq> (0, 0)"
    and S: "S = {(px, py), (px + vx, py + vy), (px + vx - vy, py + vy + vx), (px - vy, py + vx)}"
    unfolding is_square_def by blast
  from S have "(px, py) \<in> S" "(px + vx, py + vy) \<in> S" by simp_all
  moreover from v have "(px, py) \<noteq> (px + vx, py + vy)" by auto
  ultimately show ?thesis by blast
qed


text \<open>
  Claim C4 against the code. Two points with the same coordinates: the forward run has
  one step, its count is \<open>1\<close>, and there is no square among the points.
\<close>

theorem forward_count_with_duplicate_point:
  "length (pairs (points (initial\<lparr>points := [mkPt 1 1 ''P0'', mkPt 1 1 ''P1'']\<rparr>))) = 1
   \<and> forwardCount (initial\<lparr>points := [mkPt 1 1 ''P0'', mkPt 1 1 ''P1'']\<rparr>) 0 = Some 1
   \<and> card (squares_among (points (initial\<lparr>points := [mkPt 1 1 ''P0'', mkPt 1 1 ''P1'']\<rparr>))) = 0"
proof -
  let ?st = "initial\<lparr>points := [mkPt 1 1 ''P0'', mkPt 1 1 ''P1'']\<rparr>"
  have 1: "length (pairs (points ?st)) = 1"
    by code_simp
  have 2: "forwardCount ?st 0 = Some 1"
    by code_simp
  have "squares_among (points ?st) = {}"
  proof (rule ccontr)
    assume "squares_among (points ?st) \<noteq> {}"
    then obtain S where q: "is_square S" and s: "S \<subseteq> coords ` set (points ?st)"
      unfolding squares_among_def by blast
    from square_two_corners [OF q] obtain p r where "p \<in> S" "r \<in> S" "p \<noteq> r"
      by blast
    moreover have "coords ` set (points ?st) = {(1, 1)}"
      by (simp add: coords_def mkPt_def)
    ultimately show False using s by auto
  qed
  then have "card (squares_among (points ?st)) = 0" by simp
  with 1 2 show ?thesis by blast
qed

end
